theory Spec2Isabelle
  imports Main
begin

text \<open>
  A model of the core of protoactor-cpp: messages and their deleter, the context of an
  actor, the mailbox with its drain loop under the synchronous dispatcher, processes, the
  process registry, PIDs and the default spawner. Every function of the source that the
  properties below are about is a function here that takes the state it reads and returns
  the state it leaves; a call that throws, or that goes through a null pointer, returns
  that as a value.
\<close>

section \<open>Messages (types.hpp, mailbox.hpp, protoactor.hpp)\<close>

text \<open>
  The class of a message is what \<^verbatim>\<open>dynamic_cast\<close> inspects. \<open>SystemMessage\<close> stands for
  a system message of no more specific class, \<open>Hello who\<close> for the user-defined message of
  examples/hello_world/main.cpp. The field \<open>do_not_delete\<close> is the private member
  \<^verbatim>\<open>do_not_delete_\<close> (a trailing underscore is not a legal name here, so it is dropped from
  every member name of this development).
\<close>

datatype message_class =
    StartedMessage
  | StopMessage
  | ResumeMailboxMessage
  | SuspendMailboxMessage
  | SystemMessage
  | Hello string

record message =
  cls :: message_class
  do_not_delete :: bool

text \<open>The constructors. \<^verbatim>\<open>SystemMessage(bool do_not_delete = false)\<close> and
  \<^verbatim>\<open>Message(bool do_not_delete = false)\<close> default the flag to false; only \<open>StartedMessage\<close>
  and \<open>StopMessage\<close> pass \<^verbatim>\<open>true\<close>.\<close>

definition new_StartedMessage :: message where
  "new_StartedMessage = \<lparr>cls = StartedMessage, do_not_delete = True\<rparr>"

definition new_StopMessage :: message where
  "new_StopMessage = \<lparr>cls = StopMessage, do_not_delete = True\<rparr>"

definition new_ResumeMailboxMessage :: message where
  "new_ResumeMailboxMessage = \<lparr>cls = ResumeMailboxMessage, do_not_delete = False\<rparr>"

definition new_SuspendMailboxMessage :: message where
  "new_SuspendMailboxMessage = \<lparr>cls = SuspendMailboxMessage, do_not_delete = False\<rparr>"

definition new_SystemMessage :: "bool \<Rightarrow> message" where
  "new_SystemMessage dnd = \<lparr>cls = SystemMessage, do_not_delete = dnd\<rparr>"

definition new_Hello :: "string \<Rightarrow> message" where
  "new_Hello who = \<lparr>cls = Hello who, do_not_delete = False\<rparr>"

subsection \<open>Ownership: \<^verbatim>\<open>Message::Deleter\<close> over a store of message objects\<close>

text \<open>
  A store maps the address of every live message object to the object; running the
  destructor of the object at \<open>a\<close> removes \<open>a\<close> from the store. A pointer is an address or
  null (\<open>None\<close>). \<open>Deleter\<close> is \<^verbatim>\<open>Message::Deleter::operator()\<close>: it is what a
  \<^verbatim>\<open>Message::UPtr\<close>, and a \<^verbatim>\<open>Message::SPtr\<close> made from one, run when the last owner
  goes away. A pointer to an object that is no longer live is left alone by the model (the
  source would read freed memory).
\<close>

type_synonym address = nat
type_synonym store = "address \<rightharpoonup> message"

definition Deleter :: "address option \<Rightarrow> store \<Rightarrow> store" where
  "Deleter p h =
     (case p of
        None \<Rightarrow> h
      | Some a \<Rightarrow>
          (case h a of
             None \<Rightarrow> h
           | Some m \<Rightarrow> if \<not> do_not_delete m then h(a := None) else h))"

text \<open>
  \<^verbatim>\<open>StartedMessage::instance()\<close> and \<^verbatim>\<open>StopMessage::instance()\<close> hand out a \<open>UPtr\<close> to the
  function-local static object, which is built on the first call. \<open>started_instance\<close> and
  \<open>stop_instance\<close> are the addresses of the two statics, which no other object occupies;
  the store after the call holds the static. The classes \<open>ResumeMailboxMessage\<close> and
  \<open>SuspendMailboxMessage\<close> have no \<^verbatim>\<open>instance()\<close> and no constructor of their own: a
  message of these classes is allocated by its sender (\<open>new_message\<close>), with the flag at
  its default.
\<close>

definition started_instance :: address where
  "started_instance = 0"

definition stop_instance :: address where
  "stop_instance = 1"

definition StartedMessage_instance :: "store \<Rightarrow> address option \<times> store" where
  "StartedMessage_instance h = (Some started_instance, h(started_instance \<mapsto> new_StartedMessage))"

definition StopMessage_instance :: "store \<Rightarrow> address option \<times> store" where
  "StopMessage_instance h = (Some stop_instance, h(stop_instance \<mapsto> new_StopMessage))"

definition new_message :: "address \<Rightarrow> message \<Rightarrow> store \<Rightarrow> address option \<times> store" where
  "new_message a m h = (Some a, h(a \<mapsto> m))"

text \<open>
  One send cycle of a message, as far as ownership goes: the \<open>UPtr\<close> is released into the
  queue (\<^verbatim>\<open>push(message.release())\<close>), \<^verbatim>\<open>pop\<close> wraps the raw pointer in a \<open>UPtr\<close> again,
  the drain moves it into its \<open>SPtr\<close>, the invoker copies and resets its own \<open>SPtr\<close>, and
  when the drain's \<open>SPtr\<close> is reassigned or goes out of scope the last owner is gone and the
  deleter runs, once.
\<close>

definition send_cycle :: "address option \<Rightarrow> store \<Rightarrow> store" where
  "send_cycle p h = Deleter p h"

fun send_cycles :: "address option list \<Rightarrow> store \<Rightarrow> store" where
  "send_cycles [] h = h"
| "send_cycles (p # ps) h = send_cycles ps (send_cycle p h)"

section \<open>Exceptions\<close>

text \<open>
  What a call can throw. \<open>ProcessNameExistException\<close> (a \<^verbatim>\<open>std::invalid_argument\<close>) and
  \<open>std_exception\<close> are caught by \<^verbatim>\<open>catch (const std::exception &)\<close>; \<open>non_std_exception\<close>
  is a thrown object of a type that does not derive from \<^verbatim>\<open>std::exception\<close> (the actor's
  \<^verbatim>\<open>receive\<close> is user code and may throw any type), which that handler does not catch.
  \<open>NullDereference\<close> is a call through a null \<^verbatim>\<open>dispatcher_\<close> or \<^verbatim>\<open>invoker_\<close>.
\<close>

datatype thrown =
    ProcessNameExistException string
  | std_exception string
  | non_std_exception

fun derives_std_exception :: "thrown \<Rightarrow> bool" where
  "derives_std_exception (ProcessNameExistException n) = True"
| "derives_std_exception (std_exception w) = True"
| "derives_std_exception non_std_exception = False"

datatype abrupt = Throw thrown | NullDereference

section \<open>PID and LocalContext (protoactor.hpp)\<close>

text \<open>
  A \<^verbatim>\<open>Process *\<close> points nowhere (\<open>None\<close>), at the \<open>DeadLetterProcess\<close> singleton, or at the
  process the registry owns under a key: the registry never erases or replaces an entry,
  so the key identifies the object.
\<close>

datatype process_ptr = dead_letter_instance | registry_entry string

record PID =
  pid_address :: string
  pid_id :: string
  pid_process :: "process_ptr option"

definition new_PID :: "string \<Rightarrow> string \<Rightarrow> PID" where
  "new_PID a i = \<lparr>pid_address = a, pid_id = i, pid_process = None\<rparr>"

datatype ContextState = None_state | Alive | Restarting | Stopping

text \<open>
  The user's actor is its private state \<open>'a\<close> and its \<^verbatim>\<open>receive\<close>, a function of what
  \<^verbatim>\<open>context.message()\<close> returns and of the state, giving the new state and the exception
  it threw, if any. A \<^verbatim>\<open>receive\<close> that posts to a mailbox is outside the model.
\<close>

type_synonym 'a IActor = "message option \<Rightarrow> 'a \<Rightarrow> 'a \<times> thrown option"

record 'a LocalContext =
  actor :: "'a option"
  ctx_message :: "message option"
  parent :: "PID option"
  producer :: 'a
  state :: ContextState

text \<open>The constructor: the member initialisers, then \<^verbatim>\<open>incarnate_actor()\<close>. The
  producer is modelled by the actor state it returns.\<close>

definition incarnate_actor :: "'a LocalContext \<Rightarrow> 'a LocalContext" where
  "incarnate_actor c = (c\<lparr>state := Alive\<rparr>)\<lparr>actor := Some (producer c)\<rparr>"

definition new_LocalContext :: "'a \<Rightarrow> PID option \<Rightarrow> 'a LocalContext" where
  "new_LocalContext pr par =
     incarnate_actor
       \<lparr>actor = None, ctx_message = None, parent = par, producer = pr, state = None_state\<rparr>"

definition default_receive ::
  "'a IActor \<Rightarrow> 'a LocalContext \<Rightarrow> 'a LocalContext \<times> abrupt option" where
  "default_receive recv c =
     (case actor c of
        None \<Rightarrow> (c, Some NullDereference)
      | Some a \<Rightarrow>
          (case recv (ctx_message c) a of
             (a', None) \<Rightarrow> (c\<lparr>actor := Some a'\<rparr>, None)
           | (a', Some e) \<Rightarrow> (c\<lparr>actor := Some a'\<rparr>, Some (Throw e))))"

definition process_message ::
  "'a IActor \<Rightarrow> message \<Rightarrow> 'a LocalContext \<Rightarrow> 'a LocalContext \<times> abrupt option" where
  "process_message recv m c =
     (case default_receive recv (c\<lparr>ctx_message := Some m\<rparr>) of
        (c', Some x) \<Rightarrow> (c', Some x)
      | (c', None) \<Rightarrow> (c'\<lparr>ctx_message := None\<rparr>, None))"

definition invoke_user_message ::
  "'a IActor \<Rightarrow> message \<Rightarrow> 'a LocalContext \<Rightarrow> 'a LocalContext \<times> abrupt option" where
  "invoke_user_message recv m c = process_message recv m c"

definition invoke_system_message ::
  "'a IActor \<Rightarrow> message \<Rightarrow> 'a LocalContext \<Rightarrow> 'a LocalContext \<times> abrupt option" where
  "invoke_system_message recv m c =
     (if cls m = StartedMessage then invoke_user_message recv m c else (c, None))"

definition escalate_failure ::
  "thrown \<Rightarrow> message option \<Rightarrow> 'a LocalContext \<Rightarrow> 'a LocalContext" where
  "escalate_failure e m c = c"

section \<open>The mailbox (mailbox.hpp)\<close>

datatype MailboxStatus = Idle | Busy

text \<open>
  A dispatcher is a \<open>SynchronousDispatcher\<close>: \<^verbatim>\<open>schedule(runner)\<close> calls \<^verbatim>\<open>runner()\<close> before
  it returns. \<^verbatim>\<open>SynchronousDispatcher::throughput()\<close> is the constant 300
  (\<open>default_dispatcher\<close>); the record carries the value, so that a synchronous
  implementation of \<open>IDispatcher\<close> with another throughput is covered as well.
\<close>

record IDispatcher =
  throughput :: int

definition default_dispatcher :: IDispatcher where
  "default_dispatcher = \<lparr>throughput = 300\<rparr>"

text \<open>
  The calls a mailbox makes on its collaborators, in the order it makes them. The four
  notifications of \<open>IMailboxStatistics\<close> are what every observer in \<^verbatim>\<open>stats_\<close> receives;
  the other events record a call on a queue, on the invoker or on the dispatcher, and
  \<open>HandlersRegistered\<close> the call of \<^verbatim>\<open>register_handlers\<close>.
\<close>

datatype event =
    MailboxEmpty
  | MessagePosted message
  | MessageReceived message
  | MailboxStarted
  | PushSystem message
  | PushUser message
  | PopSystem "message option"
  | PopUser "message option"
  | InvokeSystem message
  | InvokeUser message
  | EscalateFailure thrown "message option"
  | DispatcherSchedule
  | HandlersRegistered

text \<open>
  \<open>DefaultMailbox\<close>. The two \<open>UnboundedMailboxQueue\<close>s are lists, oldest message first.
  \<open>trace\<close> is not a member of the class: it is the sequence of events above, and stands
  for \<^verbatim>\<open>stats_\<close> as far as the statistics notifications go.
\<close>

record 'a DefaultMailbox =
  dispatcher :: "IDispatcher option"
  invoker :: "'a LocalContext option"
  trace :: "event list"
  status :: MailboxStatus
  suspended :: bool
  system_messages :: "message list"
  user_mailbox :: "message list"

definition UnboundedMailbox_create :: "'a DefaultMailbox" where
  "UnboundedMailbox_create =
     \<lparr>dispatcher = None, invoker = None, trace = [], status = Idle, suspended = False,
      system_messages = [], user_mailbox = []\<rparr>"

definition emit :: "event \<Rightarrow> 'a DefaultMailbox \<Rightarrow> 'a DefaultMailbox" where
  "emit e mb = mb\<lparr>trace := trace mb @ [e]\<rparr>"

definition has_messages :: "message list \<Rightarrow> bool" where
  "has_messages q = (q \<noteq> [])"

definition register_handlers ::
  "'a LocalContext \<Rightarrow> IDispatcher \<Rightarrow> 'a DefaultMailbox \<Rightarrow> 'a DefaultMailbox" where
  "register_handlers c d mb =
     emit HandlersRegistered (mb\<lparr>invoker := Some c, dispatcher := Some d\<rparr>)"

definition start :: "'a DefaultMailbox \<Rightarrow> 'a DefaultMailbox" where
  "start mb = emit MailboxStarted mb"

subsection \<open>One iteration of the loop in \<^verbatim>\<open>process_messages\<close>\<close>

text \<open>
  The result of the loop body: the mailbox, the local \<^verbatim>\<open>message\<close> (the message in
  flight) and how the body was left.
\<close>

datatype control = Continue | Break | Abrupt abrupt

definition iteration ::
  "'a IActor \<Rightarrow> 'a DefaultMailbox \<Rightarrow> 'a DefaultMailbox \<times> message option \<times> control" where
  "iteration recv mb =
     (case system_messages mb of
        m # ms \<Rightarrow>
          (let mb1 = emit (PopSystem (Some m)) (mb\<lparr>system_messages := ms\<rparr>);
               mb2 = (if cls m = SuspendMailboxMessage then mb1\<lparr>suspended := True\<rparr>
                      else if cls m = ResumeMailboxMessage then mb1\<lparr>suspended := False\<rparr>
                      else mb1);
               mb3 = emit (InvokeSystem m) mb2
           in (case invoker mb3 of
                 None \<Rightarrow> (mb3, Some m, Abrupt NullDereference)
               | Some c \<Rightarrow>
                   (case invoke_system_message recv m c of
                      (c', Some x) \<Rightarrow> (mb3\<lparr>invoker := Some c'\<rparr>, Some m, Abrupt x)
                    | (c', None) \<Rightarrow>
                        (emit (MessageReceived m) (mb3\<lparr>invoker := Some c'\<rparr>), Some m,
                         Continue))))
      | [] \<Rightarrow>
          (let mb1 = emit (PopSystem None) mb
           in if suspended mb1 then (mb1, None, Break)
              else
                (case user_mailbox mb1 of
                   m # ms \<Rightarrow>
                     (let mb2 = emit (PopUser (Some m)) (mb1\<lparr>user_mailbox := ms\<rparr>);
                          mb3 = emit (InvokeUser m) mb2
                      in (case invoker mb3 of
                            None \<Rightarrow> (mb3, Some m, Abrupt NullDereference)
                          | Some c \<Rightarrow>
                              (case invoke_user_message recv m c of
                                 (c', Some x) \<Rightarrow>
                                   (mb3\<lparr>invoker := Some c'\<rparr>, Some m, Abrupt x)
                               | (c', None) \<Rightarrow>
                                   (emit (MessageReceived m) (mb3\<lparr>invoker := Some c'\<rparr>),
                                    Some m, Continue))))
                 | [] \<Rightarrow> (emit (PopUser None) mb1, None, Break))))"

subsection \<open>\<^verbatim>\<open>process_messages\<close>\<close>

text \<open>
  The \<^verbatim>\<open>for\<close> loop, from the index \<open>i\<close>: \<^verbatim>\<open>dispatcher_->throughput()\<close> is read before
  every iteration.
\<close>

function process_loop ::
  "'a IActor \<Rightarrow> int \<Rightarrow> message option \<Rightarrow> 'a DefaultMailbox
     \<Rightarrow> 'a DefaultMailbox \<times> message option \<times> abrupt option" where
  "process_loop recv i msg mb =
     (case dispatcher mb of
        None \<Rightarrow> (mb, msg, Some NullDereference)
      | Some d \<Rightarrow>
          if i < throughput d then
            (case iteration recv mb of
               (mb', msg', Continue) \<Rightarrow> process_loop recv (i + 1) msg' mb'
             | (mb', msg', Break) \<Rightarrow> (mb', msg', None)
             | (mb', msg', Abrupt x) \<Rightarrow> (mb', msg', Some x))
          else (mb, msg, None))"
  by pat_completeness auto

termination
  apply (relation "measure (\<lambda>(recv, i, msg, mb).
    case dispatcher mb of None \<Rightarrow> 0 | Some d \<Rightarrow> nat (throughput d - i))")
   apply simp
  subgoal premises prems for recv i msg mb d p mb' q msg'
  proof -
    have "dispatcher (fst (iteration recv mb)) = dispatcher mb"
      by (simp add: iteration_def emit_def Let_def
          split: list.splits option.splits prod.splits)
    with prems show ?thesis
      by (cases "iteration recv mb") auto
  qed
  done

declare process_loop.simps [simp del]

text \<open>
  The \<^verbatim>\<open>try\<close> block and its handler: an exception that derives from \<^verbatim>\<open>std::exception\<close>
  goes to \<^verbatim>\<open>escalate_failure\<close> with the message in flight, and the function returns
  \<^verbatim>\<open>true\<close>; anything else leaves the function.
\<close>

definition process_messages ::
  "'a IActor \<Rightarrow> 'a DefaultMailbox \<Rightarrow> 'a DefaultMailbox \<times> (abrupt + bool)" where
  "process_messages recv mb =
     (case process_loop recv 0 None mb of
        (mb', msg, None) \<Rightarrow> (mb', Inr True)
      | (mb', msg, Some NullDereference) \<Rightarrow> (mb', Inl NullDereference)
      | (mb', msg, Some (Throw e)) \<Rightarrow>
          if derives_std_exception e then
            (let mb1 = emit (EscalateFailure e msg) mb'
             in (case invoker mb1 of
                   None \<Rightarrow> (mb1, Inl NullDereference)
                 | Some c \<Rightarrow> (mb1\<lparr>invoker := Some (escalate_failure e msg c)\<rparr>, Inr True)))
          else (mb', Inl (Throw e)))"

subsection \<open>\<^verbatim>\<open>run\<close> and \<^verbatim>\<open>schedule\<close>\<close>

text \<open>
  \<^verbatim>\<open>schedule\<close> hands \<^verbatim>\<open>run\<close> to the dispatcher, which calls it at once, and \<^verbatim>\<open>run\<close> ends
  by calling \<^verbatim>\<open>schedule\<close> when work is left: the two call each other, and with a
  throughput below 1 they do so for ever. The first argument bounds the number of nested
  calls of \<^verbatim>\<open>run\<close>; the result is \<open>None\<close> when the bound is reached.
\<close>

fun run :: "nat \<Rightarrow> 'a IActor \<Rightarrow> 'a DefaultMailbox \<Rightarrow> ('a DefaultMailbox \<times> abrupt option) option"
  and schedule ::
    "nat \<Rightarrow> 'a IActor \<Rightarrow> 'a DefaultMailbox \<Rightarrow> ('a DefaultMailbox \<times> abrupt option) option"
where
  "run 0 recv mb = None"
| "run (Suc fuel) recv mb =
     (case process_messages recv mb of
        (mb1, Inl x) \<Rightarrow> Some (mb1, Some x)
      | (mb1, Inr done) \<Rightarrow>
          if \<not> done then Some (mb1, None)
          else
            (let mb2 = mb1\<lparr>status := Idle\<rparr>
             in if has_messages (system_messages mb2)
                   \<or> (\<not> suspended mb2 \<and> has_messages (user_mailbox mb2))
                then schedule fuel recv mb2
                else Some (emit MailboxEmpty mb2, None)))"
| "schedule fuel recv mb =
     (if status mb = Idle then
        (let mb1 = emit DispatcherSchedule (mb\<lparr>status := Busy\<rparr>)
         in (case dispatcher mb1 of
               None \<Rightarrow> Some (mb1, Some NullDereference)
             | Some d \<Rightarrow> run fuel recv mb1))
      else Some (mb, None))"

definition post_system_message ::
  "nat \<Rightarrow> 'a IActor \<Rightarrow> message \<Rightarrow> 'a DefaultMailbox
     \<Rightarrow> ('a DefaultMailbox \<times> abrupt option) option" where
  "post_system_message fuel recv m mb =
     (let mb1 = emit (MessagePosted m) mb;
          mb2 = emit (PushSystem m) (mb1\<lparr>system_messages := system_messages mb1 @ [m]\<rparr>)
      in schedule fuel recv mb2)"

definition post_user_message ::
  "nat \<Rightarrow> 'a IActor \<Rightarrow> message \<Rightarrow> 'a DefaultMailbox
     \<Rightarrow> ('a DefaultMailbox \<times> abrupt option) option" where
  "post_user_message fuel recv m mb =
     (let mb1 = emit (MessagePosted m) mb;
          mb2 = emit (PushUser m) (mb1\<lparr>user_mailbox := user_mailbox mb1 @ [m]\<rparr>)
      in schedule fuel recv mb2)"

section \<open>Processes, the registry and PIDs (protoactor.hpp)\<close>

text \<open>
  A \<open>LocalProcess\<close> holds its mailbox and the flag \<^verbatim>\<open>is_dead_\<close>. The mailbox is shared
  (\<^verbatim>\<open>std::shared_ptr\<close>) with the spawner only, which writes to it through the registry
  entry in this model.
  \<^verbatim>\<open>ProcessRegistry::next_id\<close> and \<^verbatim>\<open>Actor::spawn\<close>, which only choose the name of a new
  actor, are not modelled.
\<close>

datatype 'a Process =
    LocalProcess (mailbox: "'a DefaultMailbox") (is_dead: bool)
  | DeadLetterProcess

record 'a ProcessRegistry =
  address :: string
  local_actor_refs :: "string \<rightharpoonup> 'a Process"
  sequence_id :: int

definition no_host :: string where
  "no_host = ''nonhost''"

definition new_ProcessRegistry :: "'a ProcessRegistry" where
  "new_ProcessRegistry = \<lparr>address = no_host, local_actor_refs = Map.empty, sequence_id = 0\<rparr>"

text \<open>\<^verbatim>\<open>ProcessRegistry::get\<close> returns a reference: to the entry found under the id of the
  PID, or to the dead-letter singleton.\<close>

definition ProcessRegistry_get :: "'a ProcessRegistry \<Rightarrow> PID \<Rightarrow> process_ptr" where
  "ProcessRegistry_get reg pid =
     (case local_actor_refs reg (pid_id pid) of
        None \<Rightarrow> dead_letter_instance
      | Some pr \<Rightarrow> registry_entry (pid_id pid))"

text \<open>The object a pointer points at. An entry is never erased, so a \<open>registry_entry\<close>
  that a PID has cached is always found; the last case is for a pointer no PID can hold.\<close>

definition deref :: "'a ProcessRegistry \<Rightarrow> process_ptr \<Rightarrow> 'a Process" where
  "deref reg p =
     (case p of
        dead_letter_instance \<Rightarrow> DeadLetterProcess
      | registry_entry k \<Rightarrow>
          (case local_actor_refs reg k of Some pr \<Rightarrow> pr | None \<Rightarrow> DeadLetterProcess))"

definition try_add ::
  "string \<Rightarrow> 'a Process \<Rightarrow> 'a ProcessRegistry \<Rightarrow> 'a ProcessRegistry \<times> (thrown + PID)" where
  "try_add i pr reg =
     (let pid = new_PID (address reg) i
      in (case local_actor_refs reg i of
            Some old \<Rightarrow> (reg, Inl (ProcessNameExistException i))
          | None \<Rightarrow> (reg\<lparr>local_actor_refs := (local_actor_refs reg)(i \<mapsto> pr)\<rparr>, Inr pid)))"

text \<open>\<^verbatim>\<open>PID::ref\<close>: the pointer it returns and the PID with its cache updated.\<close>

definition PID_ref :: "'a ProcessRegistry \<Rightarrow> PID \<Rightarrow> process_ptr option \<times> PID" where
  "PID_ref reg pid =
     (case pid_process pid of
        Some p \<Rightarrow>
          (let pid' = (case deref reg p of
                         LocalProcess mb dead \<Rightarrow> if dead then pid\<lparr>pid_process := None\<rparr> else pid
                       | DeadLetterProcess \<Rightarrow> pid)
           in (pid_process pid', pid'))
      | None \<Rightarrow>
          (let reff = ProcessRegistry_get reg pid;
               pid' = (case deref reg reff of
                         DeadLetterProcess \<Rightarrow> pid
                       | LocalProcess mb dead \<Rightarrow> pid\<lparr>pid_process := Some reff\<rparr>)
           in (pid_process pid', pid')))"

text \<open>
  The virtual calls on a process, through a reference to it. \<open>with_mailbox\<close> runs an
  operation on the mailbox of the entry under \<open>k\<close> and stores the mailbox back.
\<close>

definition with_mailbox ::
  "string \<Rightarrow> ('a DefaultMailbox \<Rightarrow> ('a DefaultMailbox \<times> abrupt option) option)
     \<Rightarrow> 'a ProcessRegistry \<Rightarrow> ('a ProcessRegistry \<times> abrupt option) option" where
  "with_mailbox k f reg =
     (case local_actor_refs reg k of
        Some (LocalProcess mb dead) \<Rightarrow>
          (case f mb of
             None \<Rightarrow> None
           | Some (mb', x) \<Rightarrow>
               Some (reg\<lparr>local_actor_refs := (local_actor_refs reg)(k \<mapsto> LocalProcess mb' dead)\<rparr>,
                     x))
      | Some DeadLetterProcess \<Rightarrow> Some (reg, None)
      | None \<Rightarrow> Some (reg, None))"

definition send_user_message ::
  "nat \<Rightarrow> 'a IActor \<Rightarrow> process_ptr \<Rightarrow> message \<Rightarrow> 'a ProcessRegistry
     \<Rightarrow> ('a ProcessRegistry \<times> abrupt option) option" where
  "send_user_message fuel recv p m reg =
     (case p of
        dead_letter_instance \<Rightarrow> Some (reg, None)
      | registry_entry k \<Rightarrow> with_mailbox k (post_user_message fuel recv m) reg)"

definition send_system_message ::
  "nat \<Rightarrow> 'a IActor \<Rightarrow> process_ptr \<Rightarrow> message \<Rightarrow> 'a ProcessRegistry
     \<Rightarrow> ('a ProcessRegistry \<times> abrupt option) option" where
  "send_system_message fuel recv p m reg =
     (case p of
        dead_letter_instance \<Rightarrow> Some (reg, None)
      | registry_entry k \<Rightarrow> with_mailbox k (post_system_message fuel recv m) reg)"

text \<open>\<^verbatim>\<open>Process::stop\<close> sends \<open>StopMessage::instance()\<close>; \<^verbatim>\<open>LocalProcess::stop\<close> calls it
  and then stores \<^verbatim>\<open>true\<close> in \<^verbatim>\<open>is_dead_\<close>.\<close>

definition Process_stop ::
  "nat \<Rightarrow> 'a IActor \<Rightarrow> process_ptr \<Rightarrow> 'a ProcessRegistry
     \<Rightarrow> ('a ProcessRegistry \<times> abrupt option) option" where
  "Process_stop fuel recv p reg = send_system_message fuel recv p new_StopMessage reg"

definition set_dead :: "string \<Rightarrow> 'a ProcessRegistry \<Rightarrow> 'a ProcessRegistry" where
  "set_dead k reg =
     (case local_actor_refs reg k of
        Some (LocalProcess mb dead) \<Rightarrow>
          reg\<lparr>local_actor_refs := (local_actor_refs reg)(k \<mapsto> LocalProcess mb True)\<rparr>
      | Some DeadLetterProcess \<Rightarrow> reg
      | None \<Rightarrow> reg)"

definition stop ::
  "nat \<Rightarrow> 'a IActor \<Rightarrow> process_ptr \<Rightarrow> 'a ProcessRegistry
     \<Rightarrow> ('a ProcessRegistry \<times> abrupt option) option" where
  "stop fuel recv p reg =
     (case deref reg p of
        DeadLetterProcess \<Rightarrow> Process_stop fuel recv p reg
      | LocalProcess mb dead \<Rightarrow>
          (case Process_stop fuel recv p reg of
             None \<Rightarrow> None
           | Some (reg', Some x) \<Rightarrow> Some (reg', Some x)
           | Some (reg', None) \<Rightarrow>
               (case p of
                  registry_entry k \<Rightarrow> Some (set_dead k reg', None)
                | dead_letter_instance \<Rightarrow> Some (reg', None))))"

text \<open>\<^verbatim>\<open>PID::tell(Message::UPtr)\<close>: the PID with its cache as \<^verbatim>\<open>ref()\<close> left it, and the
  registry after the send.\<close>

definition PID_tell ::
  "nat \<Rightarrow> 'a IActor \<Rightarrow> message \<Rightarrow> PID \<Rightarrow> 'a ProcessRegistry
     \<Rightarrow> (PID \<times> 'a ProcessRegistry \<times> abrupt option) option" where
  "PID_tell fuel recv m pid reg =
     (case PID_ref reg pid of
        (p, pid') \<Rightarrow>
          (let reff = (case p of Some q \<Rightarrow> q | None \<Rightarrow> ProcessRegistry_get reg pid')
           in (case send_user_message fuel recv reff m reg of
                 None \<Rightarrow> None
               | Some (reg', x) \<Rightarrow> Some (pid', reg', x))))"

section \<open>Props and spawn (protoactor.hpp)\<close>

text \<open>\<^verbatim>\<open>mailbox_producer_\<close> and \<^verbatim>\<open>spawner_\<close> have no setter: they are always
  \<^verbatim>\<open>produce_default_mailbox\<close> and \<^verbatim>\<open>default_spawner\<close>.\<close>

record 'a Props =
  props_dispatcher :: IDispatcher
  props_producer :: 'a

definition from_producer :: "'a \<Rightarrow> 'a Props" where
  "from_producer pr = \<lparr>props_dispatcher = default_dispatcher, props_producer = pr\<rparr>"

text \<open>
  \<^verbatim>\<open>Props::default_spawner\<close>. The result is the PID, or what was thrown. The three calls on
  the mailbox go to the mailbox of the new registry entry, which is the object the local
  \<^verbatim>\<open>mailbox\<close> points at.
\<close>

definition default_spawner ::
  "nat \<Rightarrow> 'a IActor \<Rightarrow> string \<Rightarrow> 'a Props \<Rightarrow> PID option \<Rightarrow> 'a ProcessRegistry
     \<Rightarrow> ('a ProcessRegistry \<times> (abrupt + PID)) option" where
  "default_spawner fuel recv name props par reg =
     (case try_add name (LocalProcess UnboundedMailbox_create False) reg of
        (reg1, Inl e) \<Rightarrow> Some (reg1, Inl (Throw e))
      | (reg1, Inr pid) \<Rightarrow>
          (let ctx = new_LocalContext (props_producer props) par;
               d = props_dispatcher props
           in (case with_mailbox name
                      (\<lambda>mb. post_system_message fuel recv new_StartedMessage
                              (register_handlers ctx d mb)) reg1 of
                 None \<Rightarrow> None
               | Some (reg2, Some x) \<Rightarrow> Some (reg2, Inl x)
               | Some (reg2, None) \<Rightarrow>
                   (case with_mailbox name (\<lambda>mb. Some (start mb, None)) reg2 of
                      None \<Rightarrow> None
                    | Some (reg3, Some x) \<Rightarrow> Some (reg3, Inl x)
                    | Some (reg3, None) \<Rightarrow> Some (reg3, Inr pid)))))"

definition spawn_named ::
  "nat \<Rightarrow> 'a IActor \<Rightarrow> 'a Props \<Rightarrow> string \<Rightarrow> 'a ProcessRegistry
     \<Rightarrow> ('a ProcessRegistry \<times> (abrupt + PID)) option" where
  "spawn_named fuel recv props name reg = default_spawner fuel recv name props None reg"

section \<open>Properties of traces\<close>

text \<open>What the second mailbox has in its trace beyond the first.\<close>

definition emitted :: "'a DefaultMailbox \<Rightarrow> 'a DefaultMailbox \<Rightarrow> event list" where
  "emitted mb mb' = drop (length (trace mb)) (trace mb')"

text \<open>The events a drain emits: everything but the notifications and pushes of a post,
  of \<^verbatim>\<open>register_handlers\<close> and of \<^verbatim>\<open>start\<close>.\<close>

fun drain_event :: "event \<Rightarrow> bool" where
  "drain_event MailboxEmpty = True"
| "drain_event (MessageReceived m) = True"
| "drain_event (PopSystem m) = True"
| "drain_event (PopUser m) = True"
| "drain_event (InvokeSystem m) = True"
| "drain_event (InvokeUser m) = True"
| "drain_event (EscalateFailure e m) = True"
| "drain_event DispatcherSchedule = True"
| "drain_event e = False"

definition drains :: "'a DefaultMailbox \<Rightarrow> 'a DefaultMailbox \<Rightarrow> bool" where
  "drains mb mb' = (\<exists>es. trace mb' = trace mb @ es \<and> list_all drain_event es)"

text \<open>\<open>occurs_before a b es\<close>: the event \<open>b\<close> occurs after the first \<open>a\<close> in \<open>es\<close>.\<close>

fun occurs_before :: "event \<Rightarrow> event \<Rightarrow> event list \<Rightarrow> bool" where
  "occurs_before a b [] = False"
| "occurs_before a b (e # es) = (if e = a then b \<in> set es else occurs_before a b es)"

text \<open>
  The suspension flag as the popped system messages determine it, and the discipline of
  suspension: while the flag is set, no event pops from the user queue or invokes a user
  message.
\<close>

fun suspended_after :: "bool \<Rightarrow> event list \<Rightarrow> bool" where
  "suspended_after s [] = s"
| "suspended_after s (PopSystem (Some m) # es) =
     suspended_after
       (if cls m = SuspendMailboxMessage then True
        else if cls m = ResumeMailboxMessage then False else s) es"
| "suspended_after s (e # es) = suspended_after s es"

fun touches_user_queue :: "event \<Rightarrow> bool" where
  "touches_user_queue (PopUser m) = True"
| "touches_user_queue (InvokeUser m) = True"
| "touches_user_queue e = False"

fun no_user_while_suspended :: "bool \<Rightarrow> event list \<Rightarrow> bool" where
  "no_user_while_suspended s [] = True"
| "no_user_while_suspended s (e # es) =
     ((s \<longrightarrow> \<not> touches_user_queue e) \<and> no_user_while_suspended (suspended_after s [e]) es)"

definition suspend_discipline :: "'a DefaultMailbox \<Rightarrow> 'a DefaultMailbox \<Rightarrow> bool" where
  "suspend_discipline mb mb' =
     (\<exists>es. trace mb' = trace mb @ es
         \<and> no_user_while_suspended (suspended mb) es
         \<and> suspended mb' = suspended_after (suspended mb) es)"

text \<open>The invocations in a trace, and the user and system messages it invokes, in
  order.\<close>

fun invocation :: "event \<Rightarrow> bool" where
  "invocation (InvokeSystem m) = True"
| "invocation (InvokeUser m) = True"
| "invocation e = False"

fun invoked_user :: "event list \<Rightarrow> message list" where
  "invoked_user [] = []"
| "invoked_user (InvokeUser m # es) = m # invoked_user es"
| "invoked_user (e # es) = invoked_user es"

fun invoked_system :: "event list \<Rightarrow> message list" where
  "invoked_system [] = []"
| "invoked_system (InvokeSystem m # es) = m # invoked_system es"
| "invoked_system (e # es) = invoked_system es"

text \<open>The events that start a run, invoke a message or report the mailbox empty.\<close>

fun run_boundary_or_invocation :: "event \<Rightarrow> bool" where
  "run_boundary_or_invocation DispatcherSchedule = True"
| "run_boundary_or_invocation (InvokeUser m) = True"
| "run_boundary_or_invocation (InvokeSystem m) = True"
| "run_boundary_or_invocation MailboxEmpty = True"
| "run_boundary_or_invocation e = False"

text \<open>Deliverable work is pending: the condition under which \<open>run\<close> reschedules.\<close>

definition pending :: "'a DefaultMailbox \<Rightarrow> bool" where
  "pending mb =
     (has_messages (system_messages mb) \<or> (\<not> suspended mb \<and> has_messages (user_mailbox mb)))"

definition queued :: "'a DefaultMailbox \<Rightarrow> nat" where
  "queued mb = length (system_messages mb) + length (user_mailbox mb)"

text \<open>Every message that left a queue was invoked, in the order of the queue.\<close>

definition delivers :: "'a DefaultMailbox \<Rightarrow> 'a DefaultMailbox \<Rightarrow> bool" where
  "delivers mb mb' =
     (\<exists>es. trace mb' = trace mb @ es
         \<and> system_messages mb = invoked_system es @ system_messages mb'
         \<and> user_mailbox mb = invoked_user es @ user_mailbox mb')"

text \<open>The queues have not grown, and the dispatcher is the same.\<close>

definition shrinks :: "'a DefaultMailbox \<Rightarrow> 'a DefaultMailbox \<Rightarrow> bool" where
  "shrinks mb mb' = (queued mb' \<le> queued mb \<and> dispatcher mb' = dispatcher mb)"

text \<open>The lifecycle state of the context bound to a mailbox is the same in both
  mailboxes.\<close>

definition same_lifecycle :: "'a DefaultMailbox \<Rightarrow> 'a DefaultMailbox \<Rightarrow> bool" where
  "same_lifecycle mb mb' = (map_option state (invoker mb') = map_option state (invoker mb))"

section \<open>Results of calls\<close>

text \<open>The trace of the mailbox a call returns (empty when the call does not return).\<close>

definition trace_of :: "('a DefaultMailbox \<times> abrupt option) option \<Rightarrow> event list" where
  "trace_of r = (case r of None \<Rightarrow> [] | Some (mb, x) \<Rightarrow> trace mb)"

text \<open>The mailbox a call returns, if it returns.\<close>

definition result_mailbox ::
  "('a DefaultMailbox \<times> abrupt option) option \<Rightarrow> 'a DefaultMailbox option" where
  "result_mailbox r = map_option fst r"

text \<open>How a call ended, if it returned.\<close>

definition result_abrupt ::
  "('a DefaultMailbox \<times> abrupt option) option \<Rightarrow> abrupt option option" where
  "result_abrupt r = map_option snd r"

text \<open>The mailbox of the local process registered under a key.\<close>

definition mailbox_of :: "'a ProcessRegistry \<Rightarrow> string \<Rightarrow> 'a DefaultMailbox option" where
  "mailbox_of reg k =
     (case local_actor_refs reg k of
        Some (LocalProcess mb dead) \<Rightarrow> Some mb
      | Some DeadLetterProcess \<Rightarrow> None
      | None \<Rightarrow> None)"

section \<open>Evaluation step by step\<close>

text \<open>
  Two names for the parts of \<open>process_loop\<close> and \<open>run\<close> that follow the call of \<open>iteration\<close> and
  of \<open>process_messages\<close>. They are used to evaluate the two functions on a given mailbox
  step by step (\<open>process_loop_unfold\<close>, \<open>run_unfold\<close>).
\<close>

definition after_iteration ::
  "'a IActor \<Rightarrow> int \<Rightarrow> 'a DefaultMailbox \<times> message option \<times> control
     \<Rightarrow> 'a DefaultMailbox \<times> message option \<times> abrupt option" where
  "after_iteration recv i r =
     (case r of
        (mb', msg', Continue) \<Rightarrow> process_loop recv (i + 1) msg' mb'
      | (mb', msg', Break) \<Rightarrow> (mb', msg', None)
      | (mb', msg', Abrupt x) \<Rightarrow> (mb', msg', Some x))"

definition after_process ::
  "nat \<Rightarrow> 'a IActor \<Rightarrow> 'a DefaultMailbox \<times> (abrupt + bool)
     \<Rightarrow> ('a DefaultMailbox \<times> abrupt option) option" where
  "after_process fuel recv r =
     (case r of
        (mb1, Inl x) \<Rightarrow> Some (mb1, Some x)
      | (mb1, Inr dn) \<Rightarrow>
          if \<not> dn then Some (mb1, None)
          else if has_messages (system_messages mb1)
                  \<or> (\<not> suspended mb1 \<and> has_messages (user_mailbox mb1))
          then schedule fuel recv (mb1\<lparr>status := Idle\<rparr>)
          else Some (emit MailboxEmpty (mb1\<lparr>status := Idle\<rparr>), None))"

section \<open>Scenarios\<close>

text \<open>An actor that counts the messages it receives, and a mailbox bound to a context of
  it and to a synchronous dispatcher of throughput \<open>n\<close>.\<close>

definition recv_count :: "nat IActor" where
  "recv_count m n = (Suc n, None)"

definition bound_mailbox :: "int \<Rightarrow> nat DefaultMailbox" where
  "bound_mailbox n =
     register_handlers (new_LocalContext 0 None) \<lparr>throughput = n\<rparr> UnboundedMailbox_create"

text \<open>An actor that counts like \<open>recv_count\<close> and fails on \<open>Hello ''boom''\<close> with an exception
  that derives from \<^verbatim>\<open>std::exception\<close>, and on \<open>Hello ''crash''\<close> with a thrown object that
  does not.\<close>

definition recv_failing :: "nat IActor" where
  "recv_failing m n =
     (case m of
        None \<Rightarrow> (n, None)
      | Some k \<Rightarrow>
          if cls k = Hello ''boom'' then (Suc n, Some (std_exception ''boom''))
          else if cls k = Hello ''crash'' then (Suc n, Some non_std_exception)
          else (Suc n, None))"

text \<open>A store with one \<open>SuspendMailboxMessage\<close> and one \<open>ResumeMailboxMessage\<close>, each
  allocated by a sender.\<close>

definition control_store :: store where
  "control_store =
     snd (new_message 3 new_ResumeMailboxMessage
       (snd (new_message 2 new_SuspendMailboxMessage Map.empty)))"

text \<open>A suspended mailbox with one system message and one user message waiting.\<close>

definition suspended_mailbox :: "nat DefaultMailbox" where
  "suspended_mailbox =
     (bound_mailbox 3)\<lparr>suspended := True,
        system_messages := [new_SystemMessage False],
        user_mailbox := [new_Hello ''waiting'']\<rparr>"

text \<open>A mailbox with a suspend, a plain system message and a resume in the system queue,
  and two user messages.\<close>

definition suspend_resume_mailbox :: "nat DefaultMailbox" where
  "suspend_resume_mailbox =
     (bound_mailbox 1)\<lparr>system_messages :=
          [new_SuspendMailboxMessage, new_SystemMessage False, new_ResumeMailboxMessage],
        user_mailbox := [new_Hello ''a'', new_Hello ''b'']\<rparr>"

text \<open>A suspended mailbox with one user message waiting, and a mailbox that is not
  suspended with one user message.\<close>

definition suspended_waiting :: "nat DefaultMailbox" where
  "suspended_waiting =
     (bound_mailbox 3)\<lparr>suspended := True, user_mailbox := [new_Hello ''waiting'']\<rparr>"

definition one_user_message :: "nat DefaultMailbox" where
  "one_user_message = (bound_mailbox 3)\<lparr>user_mailbox := [new_Hello ''ProtoActor'']\<rparr>"

text \<open>Ten user messages queued in an idle mailbox whose dispatcher has throughput 3.\<close>

definition ten_messages :: "nat DefaultMailbox" where
  "ten_messages =
     (bound_mailbox 3)\<lparr>user_mailbox :=
        [new_Hello ''0'', new_Hello ''1'', new_Hello ''2'', new_Hello ''3'', new_Hello ''4'',
         new_Hello ''5'', new_Hello ''6'', new_Hello ''7'', new_Hello ''8'', new_Hello ''9'']\<rparr>"

text \<open>Two mailboxes of the failing actor: the first user message makes \<open>receive\<close> throw an
  exception that derives from \<^verbatim>\<open>std::exception\<close>, respectively one that does not.\<close>

definition failing_mailbox :: "nat DefaultMailbox" where
  "failing_mailbox = (bound_mailbox 3)\<lparr>user_mailbox := [new_Hello ''boom'', new_Hello ''next'']\<rparr>"

definition crashing_mailbox :: "nat DefaultMailbox" where
  "crashing_mailbox =
     (bound_mailbox 3)\<lparr>user_mailbox := [new_Hello ''crash'', new_Hello ''next'']\<rparr>"

text \<open>
  A stopped actor. The registry after \<^verbatim>\<open>spawn_named(props, "a")\<close> of a counting actor;
  the PID and the registry after a first \<^verbatim>\<open>tell\<close>, which caches the process in the PID; the
  registry after \<^verbatim>\<open>stop\<close> on the process that the registry gives for the PID; and the
  result of a second \<^verbatim>\<open>tell\<close> on the PID.
\<close>

definition spawned :: "(nat ProcessRegistry \<times> (abrupt + PID)) option" where
  "spawned = spawn_named 1 recv_count (from_producer 0) ''a'' new_ProcessRegistry"

definition pid_a :: PID where
  "pid_a = (case spawned of Some (reg, Inr pid) \<Rightarrow> pid | _ \<Rightarrow> new_PID [] [])"

definition told_early :: "(PID \<times> nat ProcessRegistry \<times> abrupt option) option" where
  "told_early =
     (case spawned of
        Some (reg, r) \<Rightarrow> PID_tell 1 recv_count (new_Hello ''early'') pid_a reg
      | None \<Rightarrow> None)"

definition cached_pid :: PID where
  "cached_pid = (case told_early of Some (pid, reg, x) \<Rightarrow> pid | None \<Rightarrow> pid_a)"

definition stopped :: "nat ProcessRegistry" where
  "stopped =
     (case told_early of
        Some (pid, reg, x) \<Rightarrow>
          (case stop 1 recv_count (ProcessRegistry_get reg pid) reg of
             Some (reg', y) \<Rightarrow> reg'
           | None \<Rightarrow> reg)
      | None \<Rightarrow> new_ProcessRegistry)"

definition told_late :: "(PID \<times> nat ProcessRegistry \<times> abrupt option) option" where
  "told_late = PID_tell 1 recv_count (new_Hello ''late'') cached_pid stopped"

definition registry_after_late :: "nat ProcessRegistry" where
  "registry_after_late =
     (case told_late of Some (pid, reg, x) \<Rightarrow> reg | None \<Rightarrow> new_ProcessRegistry)"

section \<open>Lemmas\<close>

lemma iteration_dispatcher: "dispatcher (fst (iteration recv mb)) = dispatcher mb"
  by (simp add: iteration_def emit_def Let_def split: list.splits option.splits prod.splits)

subsection \<open>A relation that every step of a drain respects holds across the drain\<close>



lemma process_loop_rel:
  assumes it: "\<And>mb. R mb (fst (iteration recv mb))"
    and refl: "\<And>mb. R mb mb"
    and trans: "\<And>a b c. R a b \<Longrightarrow> R b c \<Longrightarrow> R a c"
  shows "R mb (fst (process_loop recv i msg mb))"
  using it
proof (induction recv i msg mb rule: process_loop.induct)
  case (1 recv i msg mb)
  show ?case
  proof (cases "dispatcher mb")
    case None
    then show ?thesis
      by (simp add: process_loop.simps [of recv i msg mb] refl)
  next
    case (Some d)
    show ?thesis
    proof (cases "i < throughput d")
      case False
      with Some show ?thesis
        by (simp add: process_loop.simps [of recv i msg mb] refl)
    next
      case True
      obtain mb1 msg1 c where r: "iteration recv mb = (mb1, msg1, c)"
        by (cases "iteration recv mb") auto
      have step: "R mb mb1"
        using "1.prems" [of mb] r by simp
      show ?thesis
      proof (cases c)
        case Continue
        have "R mb1 (fst (process_loop recv (i + 1) msg1 mb1))"
          using "1.IH" [OF Some True r [symmetric] _ Continue] "1.prems" by simp
        then show ?thesis
          using Some True r Continue step
          by (simp add: process_loop.simps [of recv i msg mb]) (blast intro: trans)
      next
        case Break
        then show ?thesis
          using Some True r step by (simp add: process_loop.simps [of recv i msg mb])
      next
        case (Abrupt x)
        then show ?thesis
          using Some True r step by (simp add: process_loop.simps [of recv i msg mb])
      qed
    qed
  qed
qed


lemma invoker_update_same: "invoker mb = Some c \<Longrightarrow> mb\<lparr>invoker := Some c\<rparr> = mb"
  by (cases mb) simp

lemma process_messages_cases:
  "process_messages recv mb =
     (case process_loop recv 0 None mb of
        (mb', msg, None) \<Rightarrow> (mb', Inr True)
      | (mb', msg, Some NullDereference) \<Rightarrow> (mb', Inl NullDereference)
      | (mb', msg, Some (Throw e)) \<Rightarrow>
          if derives_std_exception e then
            (emit (EscalateFailure e msg) mb',
             if invoker mb' = None then Inl NullDereference else Inr True)
          else (mb', Inl (Throw e)))"
  by (auto simp: process_messages_def escalate_failure_def emit_def Let_def invoker_update_same
      split: prod.splits option.splits abrupt.splits)

lemma process_messages_rel:
  assumes it: "\<And>mb. R mb (fst (iteration recv mb))"
    and refl: "\<And>mb. R mb mb"
    and trans: "\<And>a b c. R a b \<Longrightarrow> R b c \<Longrightarrow> R a c"
    and esc: "\<And>mb e msg. R mb (emit (EscalateFailure e msg) mb)"
  shows "R mb (fst (process_messages recv mb))"
proof -
  have loop: "R mb (fst (process_loop recv 0 None mb))"
    using it refl trans by (rule process_loop_rel)
  obtain mb1 msg x where r: "process_loop recv 0 None mb = (mb1, msg, x)"
    by (cases "process_loop recv 0 None mb") auto
  have "fst (process_messages recv mb) = mb1
      \<or> (\<exists>e. fst (process_messages recv mb) = emit (EscalateFailure e msg) mb1)"
    using r by (auto simp: process_messages_cases split: option.splits abrupt.splits)
  moreover have "R mb mb1" using loop r by simp
  moreover have "R mb (emit (EscalateFailure e msg) mb1)" for e
    using \<open>R mb mb1\<close> esc [of mb1 e msg] trans by blast
  ultimately show ?thesis by auto
qed

lemma schedule_rel_step:
  assumes run: "\<And>m m' y. run fuel recv m = Some (m', y) \<Longrightarrow> R m m'"
    and refl: "\<And>mb. R mb mb"
    and trans: "\<And>a b c. R a b \<Longrightarrow> R b c \<Longrightarrow> R a c"
    and sched: "\<And>mb. R mb (emit DispatcherSchedule (mb\<lparr>status := Busy\<rparr>))"
    and a: "schedule fuel recv mb = Some (mb', x)"
  shows "R mb mb'"
proof (cases "status mb = Idle")
  case False
  with a show ?thesis by (simp add: refl)
next
  case True
  let ?m1 = "emit DispatcherSchedule (mb\<lparr>status := Busy\<rparr>)"
  show ?thesis
  proof (cases "dispatcher ?m1")
    case None
    with a True show ?thesis by (auto simp: Let_def sched)
  next
    case (Some d)
    with a True have "run fuel recv ?m1 = Some (mb', x)"
      by (simp add: Let_def)
    then have "R ?m1 mb'" by (rule run)
    then show ?thesis
      using sched [of mb] trans by blast
  qed
qed

lemma run_rel:
  assumes it: "\<And>mb. R mb (fst (iteration recv mb))"
    and refl: "\<And>mb. R mb mb"
    and trans: "\<And>a b c. R a b \<Longrightarrow> R b c \<Longrightarrow> R a c"
    and esc: "\<And>mb e msg. R mb (emit (EscalateFailure e msg) mb)"
    and idle: "\<And>mb. R mb (mb\<lparr>status := Idle\<rparr>)"
    and empty: "\<And>mb. R mb (emit MailboxEmpty mb)"
    and sched: "\<And>mb. R mb (emit DispatcherSchedule (mb\<lparr>status := Busy\<rparr>))"
  shows "run fuel recv mb = Some (mb', x) \<Longrightarrow> R mb mb'"
proof (induction fuel arbitrary: mb mb' x)
  case 0
  then show ?case by simp
next
  case (Suc fuel)
  have pm: "R mb (fst (process_messages recv mb))"
    using it refl trans esc by (rule process_messages_rel)
  have sch: "R m m'" if "schedule fuel recv m = Some (m', y)" for m m' y
    using Suc.IH refl trans sched that by (rule schedule_rel_step)
  obtain mb1 r where p: "process_messages recv mb = (mb1, r)"
    by (cases "process_messages recv mb") auto
  have r1: "R mb mb1" using pm p by simp
  note a = Suc.prems
  show ?case
  proof (cases r)
    case (Inl y)
    with a p r1 show ?thesis by simp
  next
    case (Inr dn)
    show ?thesis
    proof (cases dn)
      case False
      with a p r1 Inr show ?thesis by simp
    next
      case True
      let ?m2 = "mb1\<lparr>status := Idle\<rparr>"
      have r2: "R mb ?m2" using r1 idle trans by blast
      show ?thesis
      proof (cases "has_messages (system_messages ?m2)
                 \<or> (\<not> suspended ?m2 \<and> has_messages (user_mailbox ?m2))")
        case False
        with a p Inr True have "mb' = emit MailboxEmpty ?m2"
          by (auto simp: Let_def)
        then show ?thesis using r2 empty trans by blast
      next
        case c: True
        with a p Inr True have "schedule fuel recv ?m2 = Some (mb', x)"
          by (simp add: Let_def del: schedule.simps)
        then have "R ?m2 mb'" by (rule sch)
        then show ?thesis using r2 trans by blast
      qed
    qed
  qed
qed

lemma schedule_rel:
  assumes it: "\<And>mb. R mb (fst (iteration recv mb))"
    and refl: "\<And>mb. R mb mb"
    and trans: "\<And>a b c. R a b \<Longrightarrow> R b c \<Longrightarrow> R a c"
    and esc: "\<And>mb e msg. R mb (emit (EscalateFailure e msg) mb)"
    and idle: "\<And>mb. R mb (mb\<lparr>status := Idle\<rparr>)"
    and empty: "\<And>mb. R mb (emit MailboxEmpty mb)"
    and sched: "\<And>mb. R mb (emit DispatcherSchedule (mb\<lparr>status := Busy\<rparr>))"
    and a: "schedule fuel recv mb = Some (mb', x)"
  shows "R mb mb'"
proof -
  have "R m m'" if "run fuel recv m = Some (m', y)" for m m' y
    using it refl trans esc idle empty sched that by (rule run_rel)
  then show ?thesis
    using refl trans sched a by (rule schedule_rel_step)
qed

subsection \<open>The discipline of suspension\<close>

lemma suspended_after_append:
  "suspended_after s (xs @ ys) = suspended_after (suspended_after s xs) ys"
  by (induction s xs rule: suspended_after.induct) auto

lemma suspended_after_Cons:
  "suspended_after s (e # es) = suspended_after (suspended_after s [e]) es"
  using suspended_after_append [of s "[e]" es] by simp

lemma no_user_while_suspended_append:
  "no_user_while_suspended s (xs @ ys) =
     (no_user_while_suspended s xs \<and> no_user_while_suspended (suspended_after s xs) ys)"
proof (induction xs arbitrary: s)
  case Nil
  then show ?case by simp
next
  case (Cons e xs)
  show ?case
    using Cons.IH [of "suspended_after s [e]"] suspended_after_Cons [of s e xs]
    by simp
qed

lemma suspend_discipline_refl: "suspend_discipline mb mb"
  by (simp add: suspend_discipline_def)

lemma suspend_discipline_trans:
  assumes "suspend_discipline a b" and "suspend_discipline b c"
  shows "suspend_discipline a c"
proof -
  obtain es where es: "trace b = trace a @ es" "no_user_while_suspended (suspended a) es"
      "suspended b = suspended_after (suspended a) es"
    using assms(1) by (auto simp: suspend_discipline_def)
  obtain fs where fs: "trace c = trace b @ fs" "no_user_while_suspended (suspended b) fs"
      "suspended c = suspended_after (suspended b) fs"
    using assms(2) by (auto simp: suspend_discipline_def)
  have "trace c = trace a @ (es @ fs)" using es fs by simp
  moreover have "no_user_while_suspended (suspended a) (es @ fs)"
    using es fs by (simp add: no_user_while_suspended_append)
  moreover have "suspended c = suspended_after (suspended a) (es @ fs)"
    using es fs by (simp add: suspended_after_append)
  ultimately show ?thesis
    unfolding suspend_discipline_def by blast
qed

lemma suspend_discipline_emit:
  "\<not> touches_user_queue e \<Longrightarrow> (\<forall>m. e \<noteq> PopSystem (Some m))
     \<Longrightarrow> suspend_discipline mb (emit e mb)"
  by (cases e) (auto simp: suspend_discipline_def emit_def)

lemma suspend_discipline_iteration: "suspend_discipline mb (fst (iteration recv mb))"
  by (auto simp: suspend_discipline_def iteration_def emit_def Let_def
      split: list.splits option.splits prod.splits)

lemma suspend_discipline_status: "suspend_discipline mb (mb\<lparr>status := s\<rparr>)"
  by (simp add: suspend_discipline_def)

lemma suspend_discipline_sched:
  "suspend_discipline mb (emit DispatcherSchedule (mb\<lparr>status := Busy\<rparr>))"
  by (simp add: suspend_discipline_def emit_def)

lemma suspend_discipline_schedule:
  assumes "schedule fuel recv mb = Some (mb', x)"
  shows "suspend_discipline mb mb'"
proof (rule schedule_rel [where R = suspend_discipline, OF _ _ _ _ _ _ _ assms])
  show "suspend_discipline m (fst (iteration recv m))" for m
    by (rule suspend_discipline_iteration)
  show "suspend_discipline m m" for m
    by (rule suspend_discipline_refl)
  show "suspend_discipline a c" if "suspend_discipline a b" "suspend_discipline b c" for a b c
    using that by (rule suspend_discipline_trans)
  show "suspend_discipline m (emit (EscalateFailure e msg) m)" for m e msg
    by (rule suspend_discipline_emit) simp_all
  show "suspend_discipline m (m\<lparr>status := Idle\<rparr>)" for m
    by (rule suspend_discipline_status)
  show "suspend_discipline m (emit MailboxEmpty m)" for m
    by (rule suspend_discipline_emit) simp_all
  show "suspend_discipline m (emit DispatcherSchedule (m\<lparr>status := Busy\<rparr>))" for m
    by (rule suspend_discipline_sched)
qed

subsection \<open>What a drain adds to the trace\<close>

lemma drains_refl: "drains mb mb"
  by (simp add: drains_def)

lemma drains_trans: "drains a b \<Longrightarrow> drains b c \<Longrightarrow> drains a c"
  by (fastforce simp: drains_def)

lemma drains_emit: "drain_event e \<Longrightarrow> drains mb (emit e mb)"
  by (simp add: drains_def emit_def)

lemma drains_iteration: "drains mb (fst (iteration recv mb))"
  by (auto simp: drains_def iteration_def emit_def Let_def
      split: list.splits option.splits prod.splits)

lemma drains_run:
  assumes "run fuel recv mb = Some (mb', x)"
  shows "drains mb mb'"
proof (rule run_rel [where R = drains, OF _ _ _ _ _ _ _ assms])
  show "drains m (fst (iteration recv m))" for m
    by (rule drains_iteration)
  show "drains m m" for m
    by (rule drains_refl)
  show "drains a c" if "drains a b" "drains b c" for a b c
    using that by (rule drains_trans)
  show "drains m (emit (EscalateFailure e msg) m)" for m e msg
    by (simp add: drains_emit)
  show "drains m (m\<lparr>status := Idle\<rparr>)" for m
    by (simp add: drains_def)
  show "drains m (emit MailboxEmpty m)" for m
    by (simp add: drains_emit)
  show "drains m (emit DispatcherSchedule (m\<lparr>status := Busy\<rparr>))" for m
    by (simp add: drains_def emit_def)
qed

lemma schedule_cases:
  "schedule fuel recv mb =
     (if status mb \<noteq> Idle then Some (mb, None)
      else if dispatcher mb = None
        then Some (emit DispatcherSchedule (mb\<lparr>status := Busy\<rparr>), Some NullDereference)
      else run fuel recv (emit DispatcherSchedule (mb\<lparr>status := Busy\<rparr>)))"
  by (auto simp: Let_def emit_def split: option.splits)


lemma schedule_trace:
  assumes "schedule fuel recv mb = Some (mb', x)"
  shows "\<exists>es. trace mb' = trace mb @ es \<and> list_all drain_event es
           \<and> (status mb = Idle \<longrightarrow> (\<exists>es'. es = DispatcherSchedule # es'))
           \<and> (status mb \<noteq> Idle \<longrightarrow> es = [])"
proof (cases "status mb = Idle")
  case False
  with assms show ?thesis by simp
next
  case True
  let ?m1 = "emit DispatcherSchedule (mb\<lparr>status := Busy\<rparr>)"
  have t1: "trace ?m1 = trace mb @ [DispatcherSchedule]"
    by (simp add: emit_def)
  show ?thesis
  proof (cases "dispatcher mb")
    case None
    with assms True have "mb' = ?m1"
      by (auto simp: schedule_cases simp del: schedule.simps)
    with t1 True show ?thesis by simp
  next
    case (Some d)
    with assms True have "run fuel recv ?m1 = Some (mb', x)"
      by (simp add: schedule_cases del: schedule.simps)
    then have "drains ?m1 mb'" by (rule drains_run)
    then obtain es where "trace mb' = trace ?m1 @ es" "list_all drain_event es"
      by (auto simp: drains_def)
    with t1 True show ?thesis by simp
  qed
qed

subsection \<open>The context\<close>

lemma process_message_state: "state (fst (process_message recv m c)) = state c"
  by (auto simp: process_message_def default_receive_def split: option.splits prod.splits)

lemma invoke_user_message_state: "state (fst (invoke_user_message recv m c)) = state c"
  by (simp add: invoke_user_message_def process_message_state)

lemma invoke_system_message_state: "state (fst (invoke_system_message recv m c)) = state c"
  by (simp add: invoke_system_message_def invoke_user_message_state)

lemma invoke_system_message_stateD:
  "invoke_system_message recv m c = (c', y) \<Longrightarrow> state c' = state c"
  using invoke_system_message_state [of recv m c] by simp

lemma invoke_user_message_stateD:
  "invoke_user_message recv m c = (c', y) \<Longrightarrow> state c' = state c"
  using invoke_user_message_state [of recv m c] by simp

lemma same_lifecycle_iteration: "same_lifecycle mb (fst (iteration recv mb))"
  by (auto simp: same_lifecycle_def iteration_def emit_def Let_def
      split: list.splits option.splits prod.splits
      dest: invoke_system_message_stateD invoke_user_message_stateD)

lemma same_lifecycle_schedule:
  assumes "schedule fuel recv mb = Some (mb', x)"
  shows "same_lifecycle mb mb'"
proof (rule schedule_rel [where R = same_lifecycle, OF _ _ _ _ _ _ _ assms])
  show "same_lifecycle m (fst (iteration recv m))" for m
    by (rule same_lifecycle_iteration)
  show "same_lifecycle m m" for m
    by (simp add: same_lifecycle_def)
  show "same_lifecycle a c" if "same_lifecycle a b" "same_lifecycle b c" for a b c
    using that by (simp add: same_lifecycle_def)
  show "same_lifecycle m (emit (EscalateFailure e msg) m)" for m e msg
    by (simp add: same_lifecycle_def emit_def)
  show "same_lifecycle m (m\<lparr>status := Idle\<rparr>)" for m
    by (simp add: same_lifecycle_def)
  show "same_lifecycle m (emit MailboxEmpty m)" for m
    by (simp add: same_lifecycle_def emit_def)
  show "same_lifecycle m (emit DispatcherSchedule (m\<lparr>status := Busy\<rparr>))" for m
    by (simp add: same_lifecycle_def emit_def)
qed

subsection \<open>Evaluation\<close>

lemma after_iteration_simps:
  "after_iteration recv i (mb', msg', Continue) = process_loop recv (i + 1) msg' mb'"
  "after_iteration recv i (mb', msg', Break) = (mb', msg', None)"
  "after_iteration recv i (mb', msg', Abrupt x) = (mb', msg', Some x)"
  by (simp_all add: after_iteration_def)

lemma process_loop_unfold:
  "process_loop recv i msg mb =
     (case dispatcher mb of
        None \<Rightarrow> (mb, msg, Some NullDereference)
      | Some d \<Rightarrow>
          if i < throughput d then after_iteration recv i (iteration recv mb)
          else (mb, msg, None))"
  by (simp add: process_loop.simps [of recv i msg mb] after_iteration_def split: option.splits)

lemma after_process_simps:
  "after_process fuel recv (mb1, Inl x) = Some (mb1, Some x)"
  "after_process fuel recv (mb1, Inr dn) =
     (if \<not> dn then Some (mb1, None)
      else if has_messages (system_messages mb1)
              \<or> (\<not> suspended mb1 \<and> has_messages (user_mailbox mb1))
      then schedule fuel recv (mb1\<lparr>status := Idle\<rparr>)
      else Some (emit MailboxEmpty (mb1\<lparr>status := Idle\<rparr>), None))"
  by (simp_all add: after_process_def)

lemma run_unfold:
  "0 < fuel \<Longrightarrow> run fuel recv mb = after_process (fuel - 1) recv (process_messages recv mb)"
  by (cases fuel) (simp_all add: after_process_def Let_def split: prod.splits sum.splits)

lemmas eval_rules =
  recv_count_def recv_failing_def bound_mailbox_def trace_of_def
  after_iteration_simps process_loop_unfold after_process_simps run_unfold schedule_cases
  process_messages_def iteration_def emit_def has_messages_def Let_def
  invoke_system_message_def invoke_user_message_def process_message_def default_receive_def
  escalate_failure_def post_system_message_def post_user_message_def
  register_handlers_def start_def new_LocalContext_def incarnate_actor_def
  UnboundedMailbox_create_def
  new_StartedMessage_def new_StopMessage_def new_SuspendMailboxMessage_def
  new_ResumeMailboxMessage_def new_SystemMessage_def new_Hello_def
  spawn_named_def default_spawner_def try_add_def with_mailbox_def new_ProcessRegistry_def
  no_host_def from_producer_def default_dispatcher_def new_PID_def PID_tell_def PID_ref_def
  ProcessRegistry_get_def deref_def send_user_message_def send_system_message_def stop_def
  Process_stop_def set_dead_def


declare schedule.simps [simp del]

declare run.simps(2) [simp del]

subsection \<open>Ownership\<close>

lemma Deleter_keeps_static:
  "h a = Some m \<Longrightarrow> do_not_delete m \<Longrightarrow> Deleter p h a = Some m"
  by (auto simp: Deleter_def split: option.splits)

lemma send_cycles_keeps_static:
  "h a = Some m \<Longrightarrow> do_not_delete m \<Longrightarrow> send_cycles ps h a = Some m"
proof (induction ps arbitrary: h)
  case Nil
  then show ?case by simp
next
  case (Cons p ps)
  have "send_cycle p h a = Some m"
    unfolding send_cycle_def using Cons.prems by (rule Deleter_keeps_static)
  then show ?case
    using Cons.IH Cons.prems(2) by simp
qed

subsection \<open>The registry\<close>

lemma with_mailbox_dom:
  "with_mailbox k f reg = Some (reg', x)
     \<Longrightarrow> dom (local_actor_refs reg') = dom (local_actor_refs reg)"
  by (auto simp: with_mailbox_def split: option.splits Process.splits prod.splits if_splits)

lemma try_add_mapped: "i \<in> dom (local_actor_refs (fst (try_add i pr reg)))"
  by (auto simp: try_add_def Let_def split: option.splits)

lemma spawn_named_registers:
  assumes "spawn_named fuel recv props i reg = Some (rega, r)"
  shows "i \<in> dom (local_actor_refs rega)"
proof -
  obtain reg1 t where t: "try_add i (LocalProcess UnboundedMailbox_create False) reg = (reg1, t)"
    by (cases "try_add i (LocalProcess UnboundedMailbox_create False) reg") auto
  have m: "i \<in> dom (local_actor_refs reg1)"
    using try_add_mapped [of i "LocalProcess UnboundedMailbox_create False" reg] t by simp
  show ?thesis
  proof (cases t)
    case (Inl e)
    with assms t m show ?thesis
      by (simp add: spawn_named_def default_spawner_def)
  next
    case (Inr pid)
    let ?f = "\<lambda>mb. post_system_message fuel recv new_StartedMessage
        (register_handlers (new_LocalContext (props_producer props) None)
           (props_dispatcher props) mb)"
    from assms t Inr obtain reg2 y where w: "with_mailbox i ?f reg1 = Some (reg2, y)"
      by (auto simp: spawn_named_def default_spawner_def Let_def split: option.splits)
    have m2: "i \<in> dom (local_actor_refs reg2)"
      using with_mailbox_dom [OF w] m by simp
    show ?thesis
    proof (cases y)
      case (Some x)
      with assms t Inr w m2 show ?thesis
        by (simp add: spawn_named_def default_spawner_def Let_def)
    next
      case None
      from assms t Inr w None obtain z where
        w3: "with_mailbox i (\<lambda>mb. Some (start mb, None)) reg2 = Some (rega, z)"
        by (auto simp: spawn_named_def default_spawner_def Let_def
            split: option.splits)
      show ?thesis
        using with_mailbox_dom [OF w3] m2 by simp
    qed
  qed
qed

subsection \<open>One iteration\<close>

lemma iteration_system:
  assumes "system_messages mb = m # ms"
  shows "system_messages (fst (iteration recv mb)) = ms"
    and "user_mailbox (fst (iteration recv mb)) = user_mailbox mb"
    and "\<exists>es. trace (fst (iteration recv mb)) = trace mb @ [PopSystem (Some m), InvokeSystem m] @ es
          \<and> (es = [] \<or> es = [MessageReceived m])"
    and "fst (snd (iteration recv mb)) = Some m"
    and "snd (snd (iteration recv mb)) \<noteq> Break"
    and "invoker mb = Some c \<Longrightarrow>
          invoker (fst (iteration recv mb)) = Some (fst (invoke_system_message recv m c))"
  using assms
  by (auto simp: iteration_def emit_def Let_def split: option.splits prod.splits)

lemma iteration_suspended:
  assumes "system_messages mb = []" and "suspended mb"
  shows "iteration recv mb = (emit (PopSystem None) mb, None, Break)"
  using assms by (simp add: iteration_def emit_def Let_def)

lemma iteration_user:
  assumes "system_messages mb = []" and "\<not> suspended mb" and "user_mailbox mb = m # ms"
  shows "user_mailbox (fst (iteration recv mb)) = ms"
    and "system_messages (fst (iteration recv mb)) = []"
    and "\<exists>es. trace (fst (iteration recv mb))
            = trace mb @ [PopSystem None, PopUser (Some m), InvokeUser m] @ es
          \<and> (es = [] \<or> es = [MessageReceived m])"
    and "fst (snd (iteration recv mb)) = Some m"
    and "snd (snd (iteration recv mb)) \<noteq> Break"
    and "invoker mb = Some c \<Longrightarrow>
          invoker (fst (iteration recv mb)) = Some (fst (invoke_user_message recv m c))"
  using assms
  by (auto simp: iteration_def emit_def Let_def split: option.splits prod.splits)

lemma iteration_empty:
  assumes "system_messages mb = []" and "\<not> suspended mb" and "user_mailbox mb = []"
  shows "iteration recv mb = (emit (PopUser None) (emit (PopSystem None) mb), None, Break)"
  using assms by (simp add: iteration_def emit_def Let_def)

lemma iteration_pops_system_first:
  "\<exists>es. trace (fst (iteration recv mb))
     = trace mb @ PopSystem (case system_messages mb of [] \<Rightarrow> None | m # ms \<Rightarrow> Some m) # es"
  by (auto simp: iteration_def emit_def Let_def split: list.splits option.splits prod.splits)

lemma iteration_user_only_if:
  assumes "\<exists>e \<in> set (emitted mb (fst (iteration recv mb))). touches_user_queue e"
  shows "system_messages mb = [] \<and> \<not> suspended mb"
  using assms
  by (auto simp: emitted_def iteration_def emit_def Let_def
      split: list.splits option.splits prod.splits if_splits)

lemma process_loop_break:
  assumes "dispatcher mb = Some d" and "i < throughput d"
    and "snd (snd (iteration recv mb)) = Break"
  shows "process_loop recv i msg mb = (fst (iteration recv mb), fst (snd (iteration recv mb)), None)"
  using assms
  by (cases "iteration recv mb") (simp add: process_loop_unfold after_iteration_simps)

subsection \<open>A drain pass and a run\<close>

lemma drains_process_loop: "drains mb (fst (process_loop recv i msg mb))"
  using drains_iteration drains_refl drains_trans by (rule process_loop_rel)

lemma process_loop_first:
  assumes "dispatcher mb = Some d" and "i < throughput d"
  shows "drains (fst (iteration recv mb)) (fst (process_loop recv i msg mb))"
proof -
  obtain mb1 msg1 c where r: "iteration recv mb = (mb1, msg1, c)"
    by (cases "iteration recv mb") auto
  show ?thesis
    using assms r
    by (cases c) (simp_all add: process_loop_unfold [of recv i msg mb] after_iteration_simps
        drains_refl drains_process_loop)
qed

lemma process_messages_after_loop:
  "drains (fst (process_loop recv 0 None mb)) (fst (process_messages recv mb))"
  by (auto simp: process_messages_cases drains_refl drains_emit
      split: prod.splits option.splits abrupt.splits)

lemma process_messages_first:
  assumes "dispatcher mb = Some d" and "0 < throughput d"
  shows "drains (fst (iteration recv mb)) (fst (process_messages recv mb))"
  using process_loop_first [OF assms, of recv None] process_messages_after_loop [of recv mb]
  by (rule drains_trans)

lemma suspend_discipline_process_messages:
  "suspend_discipline mb (fst (process_messages recv mb))"
proof (rule process_messages_rel [where R = suspend_discipline])
  show "suspend_discipline k (fst (iteration recv k))" for k
    by (rule suspend_discipline_iteration)
  show "suspend_discipline k k" for k
    by (rule suspend_discipline_refl)
  show "suspend_discipline a c" if "suspend_discipline a b" "suspend_discipline b c" for a b c
    using that by (rule suspend_discipline_trans)
  show "suspend_discipline k (emit (EscalateFailure e msg) k)" for k e msg
    by (rule suspend_discipline_emit) simp_all
qed

lemma process_messages_done: "snd (process_messages recv mb) \<noteq> Inr False"
  by (auto simp: process_messages_cases split: prod.splits option.splits abrupt.splits)

lemma run_drained:
  "run fuel recv mb = Some (mb', None)
     \<Longrightarrow> status mb' = Idle \<and> system_messages mb' = []
         \<and> (suspended mb' \<or> user_mailbox mb' = [])"
proof (induction fuel arbitrary: mb)
  case 0
  then show ?case by simp
next
  case (Suc fuel)
  obtain mb1 r where p: "process_messages recv mb = (mb1, r)"
    by (cases "process_messages recv mb") auto
  from Suc.prems p have a: "after_process fuel recv (mb1, r) = Some (mb', None)"
    by (simp add: run_unfold)
  show ?case
  proof (cases r)
    case (Inl x)
    with a show ?thesis by (simp add: after_process_simps)
  next
    case (Inr dn)
    have dn: "dn" using process_messages_done [of recv mb] p Inr by auto
    let ?m2 = "mb1\<lparr>status := Idle\<rparr>"
    show ?thesis
    proof (cases "has_messages (system_messages mb1)
        \<or> (\<not> suspended mb1 \<and> has_messages (user_mailbox mb1))")
      case False
      with a Inr dn have "mb' = emit MailboxEmpty ?m2"
        by (simp add: after_process_simps)
      with False show ?thesis
        by (auto simp: emit_def has_messages_def)
    next
      case True
      with a Inr dn have "schedule fuel recv ?m2 = Some (mb', None)"
        by (simp add: after_process_simps)
      then have "run fuel recv (emit DispatcherSchedule (?m2\<lparr>status := Busy\<rparr>))
          = Some (mb', None)"
        by (simp add: schedule_cases split: if_splits)
      then show ?thesis by (rule Suc.IH)
    qed
  qed
qed

lemma schedule_drained:
  assumes "schedule fuel recv mb = Some (mb', None)" and "status mb = Idle"
  shows "status mb' = Idle \<and> system_messages mb' = []
      \<and> (suspended mb' \<or> user_mailbox mb' = [])"
proof -
  from assms have "run fuel recv (emit DispatcherSchedule (mb\<lparr>status := Busy\<rparr>))
      = Some (mb', None)"
    by (simp add: schedule_cases split: if_splits)
  then show ?thesis by (rule run_drained)
qed

subsection \<open>After the first iteration of a pass\<close>

lemma process_loop_first_rel:
  assumes it: "\<And>mb. R mb (fst (iteration recv mb))"
    and refl: "\<And>mb. R mb mb"
    and trans: "\<And>a b c. R a b \<Longrightarrow> R b c \<Longrightarrow> R a c"
    and d: "dispatcher mb = Some d" and i: "i < throughput d"
  shows "R (fst (iteration recv mb)) (fst (process_loop recv i msg mb))"
proof -
  obtain mb1 msg1 c where r: "iteration recv mb = (mb1, msg1, c)"
    by (cases "iteration recv mb") auto
  have "R mb1 (fst (process_loop recv (i + 1) msg1 mb1))"
    using it refl trans by (rule process_loop_rel)
  then show ?thesis
    using d i r
    by (cases c) (simp_all add: process_loop_unfold [of recv i msg mb] after_iteration_simps
        refl)
qed

lemma process_messages_first_rel:
  assumes it: "\<And>mb. R mb (fst (iteration recv mb))"
    and refl: "\<And>mb. R mb mb"
    and trans: "\<And>a b c. R a b \<Longrightarrow> R b c \<Longrightarrow> R a c"
    and esc: "\<And>mb e msg. R mb (emit (EscalateFailure e msg) mb)"
    and d: "dispatcher mb = Some d" and i: "0 < throughput d"
  shows "R (fst (iteration recv mb)) (fst (process_messages recv mb))"
proof -
  have a: "R (fst (iteration recv mb)) (fst (process_loop recv 0 None mb))"
    using it refl trans d i by (rule process_loop_first_rel)
  obtain mb1 msg x where r: "process_loop recv 0 None mb = (mb1, msg, x)"
    by (cases "process_loop recv 0 None mb") auto
  have "fst (process_messages recv mb) = mb1
      \<or> (\<exists>e. fst (process_messages recv mb) = emit (EscalateFailure e msg) mb1)"
    using r by (auto simp: process_messages_cases split: option.splits abrupt.splits)
  moreover have "R (fst (iteration recv mb)) mb1" using a r by simp
  moreover have "R (fst (iteration recv mb)) (emit (EscalateFailure e msg) mb1)" for e
    using \<open>R (fst (iteration recv mb)) mb1\<close> esc [of mb1 e msg] trans by blast
  ultimately show ?thesis by auto
qed

subsection \<open>Queues only shrink, and a pass that leaves work has consumed a message\<close>

lemma shrinks_refl: "shrinks mb mb"
  by (simp add: shrinks_def)

lemma shrinks_trans: "shrinks a b \<Longrightarrow> shrinks b c \<Longrightarrow> shrinks a c"
  by (simp add: shrinks_def)

lemma shrinks_emit: "shrinks mb (emit e mb)"
  by (simp add: shrinks_def queued_def emit_def)

lemma shrinks_iteration: "shrinks mb (fst (iteration recv mb))"
  by (auto simp: shrinks_def queued_def iteration_def emit_def Let_def
      split: list.splits option.splits prod.splits)

lemma iteration_consumes:
  "snd (snd (iteration recv mb)) \<noteq> Break \<Longrightarrow> queued (fst (iteration recv mb)) < queued mb"
  by (auto simp: queued_def iteration_def emit_def Let_def
      split: list.splits option.splits prod.splits if_splits)

lemma iteration_break_idle:
  "snd (snd (iteration recv mb)) = Break \<Longrightarrow> \<not> pending (fst (iteration recv mb))"
  by (auto simp: pending_def has_messages_def iteration_def emit_def Let_def
      split: list.splits option.splits prod.splits if_splits)

lemma shrinks_process_messages: "shrinks mb (fst (process_messages recv mb))"
  using shrinks_iteration shrinks_refl shrinks_trans shrinks_emit
  by (rule process_messages_rel)

lemma process_messages_progress:
  assumes d: "dispatcher mb = Some d" and i: "0 < throughput d"
    and p: "pending (fst (process_messages recv mb))"
  shows "queued (fst (process_messages recv mb)) < queued mb"
proof (cases "snd (snd (iteration recv mb)) = Break")
  case True
  have "process_loop recv 0 None mb
      = (fst (iteration recv mb), fst (snd (iteration recv mb)), None)"
    using d i True by (rule process_loop_break)
  then have "fst (process_messages recv mb) = fst (iteration recv mb)"
    by (simp add: process_messages_cases)
  with p iteration_break_idle [OF True] show ?thesis by simp
next
  case False
  have "shrinks (fst (iteration recv mb)) (fst (process_messages recv mb))"
    using shrinks_iteration shrinks_refl shrinks_trans shrinks_emit d i
    by (rule process_messages_first_rel)
  with iteration_consumes [OF False] show ?thesis
    by (simp add: shrinks_def)
qed

lemma run_terminates:
  "dispatcher mb = Some d \<Longrightarrow> 0 < throughput d \<Longrightarrow> queued mb < fuel
     \<Longrightarrow> run fuel recv mb \<noteq> None"
proof (induction fuel arbitrary: mb)
  case 0
  then show ?case by simp
next
  case (Suc fuel)
  obtain mb1 r where p: "process_messages recv mb = (mb1, r)"
    by (cases "process_messages recv mb") auto
  have sh: "shrinks mb mb1"
    using shrinks_process_messages [of mb recv] p by simp
  show ?case
  proof (cases r)
    case (Inl x)
    with p show ?thesis by (simp add: run_unfold after_process_simps)
  next
    case (Inr dn)
    show ?thesis
    proof (cases "pending mb1")
      case False
      with p Inr show ?thesis
        by (auto simp: run_unfold after_process_simps pending_def)
    next
      case True
      let ?m3 = "emit DispatcherSchedule (mb1\<lparr>status := Busy\<rparr>)"
      have "queued mb1 < queued mb"
        using process_messages_progress [OF Suc.prems(1) Suc.prems(2), of recv] p True by simp
      then have q: "queued ?m3 < fuel"
        using Suc.prems(3) by (simp add: queued_def emit_def)
      have d3: "dispatcher ?m3 = Some d"
        using sh Suc.prems(1) by (simp add: shrinks_def emit_def)
      have "run fuel recv ?m3 \<noteq> None"
        using d3 Suc.prems(2) q by (rule Suc.IH)
      moreover have "run (Suc fuel) recv mb
          = (if dn then run fuel recv ?m3 else Some (mb1, None))"
        using p Inr True d3
        by (simp add: run_unfold after_process_simps pending_def schedule_cases emit_def)
      ultimately show ?thesis by simp
    qed
  qed
qed

subsection \<open>What leaves a queue is invoked, in order\<close>

lemma invoked_user_append: "invoked_user (xs @ ys) = invoked_user xs @ invoked_user ys"
  by (induction xs rule: invoked_user.induct) auto

lemma invoked_system_append: "invoked_system (xs @ ys) = invoked_system xs @ invoked_system ys"
  by (induction xs rule: invoked_system.induct) auto

lemma delivers_refl: "delivers mb mb"
  by (simp add: delivers_def)

lemma delivers_trans:
  assumes "delivers a b" and "delivers b c"
  shows "delivers a c"
proof -
  obtain es where es: "trace b = trace a @ es"
      "system_messages a = invoked_system es @ system_messages b"
      "user_mailbox a = invoked_user es @ user_mailbox b"
    using assms(1) by (auto simp: delivers_def)
  obtain fs where fs: "trace c = trace b @ fs"
      "system_messages b = invoked_system fs @ system_messages c"
      "user_mailbox b = invoked_user fs @ user_mailbox c"
    using assms(2) by (auto simp: delivers_def)
  have "trace c = trace a @ (es @ fs)"
      "system_messages a = invoked_system (es @ fs) @ system_messages c"
      "user_mailbox a = invoked_user (es @ fs) @ user_mailbox c"
    using es fs by (simp_all add: invoked_user_append invoked_system_append)
  then show ?thesis
    unfolding delivers_def by blast
qed

lemma delivers_emit: "\<not> invocation e \<Longrightarrow> delivers mb (emit e mb)"
  by (cases e) (auto simp: delivers_def emit_def)

lemma delivers_iteration: "delivers mb (fst (iteration recv mb))"
  by (auto simp: delivers_def iteration_def emit_def Let_def
      split: list.splits option.splits prod.splits)

lemma delivers_schedule:
  assumes "schedule fuel recv mb = Some (mb', x)"
  shows "delivers mb mb'"
proof (rule schedule_rel [where R = delivers, OF _ _ _ _ _ _ _ assms])
  show "delivers k (fst (iteration recv k))" for k
    by (rule delivers_iteration)
  show "delivers k k" for k :: "'a DefaultMailbox"
    by (rule delivers_refl)
  show "delivers a c" if "delivers a b" "delivers b c" for a b c :: "'a DefaultMailbox"
    using that by (rule delivers_trans)
  show "delivers k (emit (EscalateFailure e msg) k)" for k :: "'a DefaultMailbox" and e msg
    by (simp add: delivers_emit)
  show "delivers k (k\<lparr>status := Idle\<rparr>)" for k :: "'a DefaultMailbox"
    by (simp add: delivers_def)
  show "delivers k (emit MailboxEmpty k)" for k :: "'a DefaultMailbox"
    by (simp add: delivers_emit)
  show "delivers k (emit DispatcherSchedule (k\<lparr>status := Busy\<rparr>))" for k :: "'a DefaultMailbox"
    by (simp add: delivers_def emit_def)
qed

subsection \<open>At most \<open>throughput\<close> invocations in a pass\<close>

lemma iteration_invocations:
  "\<exists>es. trace (fst (iteration recv mb)) = trace mb @ es
     \<and> length (filter invocation es) \<le> 1"
  by (auto simp: iteration_def emit_def Let_def split: list.splits option.splits prod.splits)

lemma process_loop_invocations:
  "dispatcher mb = Some d \<Longrightarrow>
     \<exists>es. trace (fst (process_loop recv i msg mb)) = trace mb @ es
       \<and> int (length (filter invocation es)) \<le> max 0 (throughput d - i)"
proof (induction recv i msg mb rule: process_loop.induct)
  case (1 recv i msg mb)
  show ?case
  proof (cases "i < throughput d")
    case False
    with "1.prems" show ?thesis
      by (simp add: process_loop_unfold [of recv i msg mb])
  next
    case True
    obtain mb1 msg1 c where r: "iteration recv mb = (mb1, msg1, c)"
      by (cases "iteration recv mb") auto
    obtain es where es: "trace mb1 = trace mb @ es" "length (filter invocation es) \<le> 1"
      using iteration_invocations [of recv mb] r by auto
    have d1: "dispatcher mb1 = Some d"
      using iteration_dispatcher [of recv mb] r "1.prems" by simp
    show ?thesis
    proof (cases c)
      case Continue
      from "1.IH" [OF "1.prems" True r [symmetric] _ Continue d1]
      obtain fs where fs: "trace (fst (process_loop recv (i + 1) msg1 mb1)) = trace mb1 @ fs"
          "int (length (filter invocation fs)) \<le> max 0 (throughput d - (i + 1))"
        by auto
      have "trace (fst (process_loop recv i msg mb)) = trace mb @ (es @ fs)"
        using "1.prems" True r Continue es fs
        by (simp add: process_loop_unfold [of recv i msg mb] after_iteration_simps)
      moreover have "int (length (filter invocation (es @ fs))) \<le> max 0 (throughput d - i)"
        using es(2) fs(2) True by simp
      ultimately show ?thesis by blast
    next
      case Break
      then have "trace (fst (process_loop recv i msg mb)) = trace mb @ es"
        using "1.prems" True r es
        by (simp add: process_loop_unfold [of recv i msg mb] after_iteration_simps)
      moreover have "int (length (filter invocation es)) \<le> max 0 (throughput d - i)"
        using es(2) True by simp
      ultimately show ?thesis by blast
    next
      case (Abrupt x)
      then have "trace (fst (process_loop recv i msg mb)) = trace mb @ es"
        using "1.prems" True r es
        by (simp add: process_loop_unfold [of recv i msg mb] after_iteration_simps)
      moreover have "int (length (filter invocation es)) \<le> max 0 (throughput d - i)"
        using es(2) True by simp
      ultimately show ?thesis by blast
    qed
  qed
qed

lemma process_messages_invocations:
  assumes "dispatcher mb = Some d"
  shows "\<exists>es. trace (fst (process_messages recv mb)) = trace mb @ es
       \<and> int (length (filter invocation es)) \<le> max 0 (throughput d)"
proof -
  obtain mb1 msg x where r: "process_loop recv 0 None mb = (mb1, msg, x)"
    by (cases "process_loop recv 0 None mb") auto
  obtain es where es: "trace mb1 = trace mb @ es"
      "int (length (filter invocation es)) \<le> max 0 (throughput d)"
    using process_loop_invocations [OF assms, of recv 0 None] r by auto
  have "fst (process_messages recv mb) = mb1
      \<or> (\<exists>e. fst (process_messages recv mb) = emit (EscalateFailure e msg) mb1)"
    using r by (auto simp: process_messages_cases split: option.splits abrupt.splits)
  then show ?thesis
  proof
    assume "fst (process_messages recv mb) = mb1"
    with es show ?thesis by auto
  next
    assume "\<exists>e. fst (process_messages recv mb) = emit (EscalateFailure e msg) mb1"
    then obtain e where "fst (process_messages recv mb) = emit (EscalateFailure e msg) mb1"
      by blast
    then have "trace (fst (process_messages recv mb)) = trace mb @ (es @ [EscalateFailure e msg])"
      using es by (simp add: emit_def)
    moreover have "int (length (filter invocation (es @ [EscalateFailure e msg])))
        \<le> max 0 (throughput d)"
      using es by simp
    ultimately show ?thesis by blast
  qed
qed

subsection \<open>An exception of the invoker\<close>

lemma iteration_throw:
  assumes "iteration recv mb = (mb1, msg1, Abrupt (Throw e))"
  shows "\<exists>m. msg1 = Some m \<and> invoker mb1 \<noteq> None
      \<and> (last (trace mb1) = InvokeSystem m \<or> last (trace mb1) = InvokeUser m)"
  using assms
  by (auto simp: iteration_def emit_def Let_def
      split: list.splits option.splits prod.splits if_splits)

lemma process_loop_throw:
  "process_loop recv i msg mb = (mb1, msg1, Some (Throw e)) \<Longrightarrow>
     \<exists>m. msg1 = Some m \<and> invoker mb1 \<noteq> None
       \<and> (last (trace mb1) = InvokeSystem m \<or> last (trace mb1) = InvokeUser m)"
proof (induction recv i msg mb rule: process_loop.induct)
  case (1 recv i msg mb)
  show ?case
  proof (cases "dispatcher mb")
    case None
    with "1.prems" show ?thesis
      by (simp add: process_loop_unfold [of recv i msg mb])
  next
    case (Some d)
    show ?thesis
    proof (cases "i < throughput d")
      case False
      with Some "1.prems" show ?thesis
        by (simp add: process_loop_unfold [of recv i msg mb])
    next
      case True
      obtain mb2 msg2 c where r: "iteration recv mb = (mb2, msg2, c)"
        by (cases "iteration recv mb") auto
      show ?thesis
      proof (cases c)
        case Continue
        with "1.prems" Some True r
        have "process_loop recv (i + 1) msg2 mb2 = (mb1, msg1, Some (Throw e))"
          by (simp add: process_loop_unfold [of recv i msg mb] after_iteration_simps)
        with "1.IH" [OF Some True r [symmetric] _ Continue] show ?thesis by simp
      next
        case Break
        with "1.prems" Some True r show ?thesis
          by (simp add: process_loop_unfold [of recv i msg mb] after_iteration_simps)
      next
        case (Abrupt x)
        with "1.prems" Some True r have "iteration recv mb = (mb1, msg1, Abrupt (Throw e))"
          by (simp add: process_loop_unfold [of recv i msg mb] after_iteration_simps)
        then show ?thesis by (rule iteration_throw)
      qed
    qed
  qed
qed

subsection \<open>Posting and spawning\<close>



section \<open>The claims\<close>

text \<open>
  C1. After \<open>LocalProcess::stop\<close> the process is dead, and \<open>PID::ref\<close> drops the pointer the
  PID has cached and returns null. The registry lookup that \<open>PID::tell\<close> then falls back
  on does not give the \<open>DeadLetterProcess\<close>: the stopped \<open>LocalProcess\<close> is still
  registered under the id, \<open>ProcessRegistry::get\<close> returns it, and the message is posted
  to its mailbox and invoked on the stopped actor, which has then received three messages
  (\<open>Started\<close>, the one told before the stop, and the one told after it). A PID with an
  empty cache resolves to the stopped process as well.
\<close>

theorem tell_after_stop_reaches_the_stopped_actor:
  "pid_process cached_pid = Some (registry_entry ''a'')
 \<and> map_option is_dead (local_actor_refs stopped ''a'') = Some True
 \<and> fst (PID_ref stopped cached_pid) = None
 \<and> ProcessRegistry_get stopped (snd (PID_ref stopped cached_pid)) = registry_entry ''a''
 \<and> fst (PID_ref stopped pid_a) = Some (registry_entry ''a'')
 \<and> deref stopped (registry_entry ''a'') \<noteq> DeadLetterProcess
 \<and> map_option trace (mailbox_of stopped ''a'')
     = Some [HandlersRegistered, MessagePosted new_StartedMessage, PushSystem new_StartedMessage,
        DispatcherSchedule, PopSystem (Some new_StartedMessage), InvokeSystem new_StartedMessage,
        MessageReceived new_StartedMessage, PopSystem None, PopUser None, MailboxEmpty,
        MailboxStarted,
        MessagePosted (new_Hello ''early''), PushUser (new_Hello ''early''),
        DispatcherSchedule, PopSystem None, PopUser (Some (new_Hello ''early'')),
        InvokeUser (new_Hello ''early''), MessageReceived (new_Hello ''early''),
        PopSystem None, PopUser None, MailboxEmpty,
        MessagePosted new_StopMessage, PushSystem new_StopMessage,
        DispatcherSchedule, PopSystem (Some new_StopMessage), InvokeSystem new_StopMessage,
        MessageReceived new_StopMessage, PopSystem None, PopUser None, MailboxEmpty]
 \<and> map_option (drop 30) (map_option trace (mailbox_of registry_after_late ''a''))
     = Some [MessagePosted (new_Hello ''late''), PushUser (new_Hello ''late''),
        DispatcherSchedule, PopSystem None, PopUser (Some (new_Hello ''late'')),
        InvokeUser (new_Hello ''late''), MessageReceived (new_Hello ''late''),
        PopSystem None, PopUser None, MailboxEmpty]
 \<and> map_option invoker (mailbox_of registry_after_late ''a'')
     = Some (Some \<lparr>actor = Some 3, ctx_message = None, parent = None, producer = 0,
          state = Alive\<rparr>)"
  by (simp add: registry_after_late_def told_late_def stopped_def cached_pid_def told_early_def
      pid_a_def spawned_def mailbox_of_def eval_rules)

text \<open>
  C2 (as amended). In one pass of the drain routine at most \<open>throughput()\<close> messages are
  invoked (none when the throughput is below 1). A run is one pass; it then sets the status
  to \<open>Idle\<close> and reschedules itself, through the dispatcher, exactly when the system queue
  is not empty or the mailbox is not suspended and the user queue is not empty, and
  otherwise reports the mailbox empty: user messages of a suspended mailbox stay queued
  without a reschedule. With a synchronous dispatcher of positive throughput the runs that
  a schedule starts come to an end, and when they end normally the system queue is empty,
  the user queue is empty unless the mailbox is suspended, and every message that left a
  queue was invoked, in the order of the queue. With throughput 3 and 10 queued user
  messages there are four runs, of 3, 3, 3 and 1 messages.
\<close>

theorem throughput_bounds_a_run:
  "(dispatcher mb = Some d \<longrightarrow>
      (\<exists>es. trace (fst (process_messages recv mb)) = trace mb @ es
         \<and> int (length (filter invocation es)) \<le> max 0 (throughput d)))
 \<and> run (Suc fuel) recv mb =
      (case process_messages recv mb of
         (mb1, Inl x) \<Rightarrow> Some (mb1, Some x)
       | (mb1, Inr dn) \<Rightarrow>
           if system_messages mb1 \<noteq> [] \<or> (\<not> suspended mb1 \<and> user_mailbox mb1 \<noteq> [])
           then schedule fuel recv (mb1\<lparr>status := Idle\<rparr>)
           else Some (emit MailboxEmpty (mb1\<lparr>status := Idle\<rparr>), None))
 \<and> (status mb = Idle \<and> dispatcher mb = Some d \<longrightarrow>
       schedule fuel recv mb = run fuel recv (emit DispatcherSchedule (mb\<lparr>status := Busy\<rparr>)))
 \<and> (dispatcher mb = Some d \<and> 0 < throughput d \<and> queued mb < fuel \<longrightarrow>
       run fuel recv mb \<noteq> None)
 \<and> (schedule fuel recv mb = Some (mb', None) \<and> status mb = Idle \<longrightarrow>
       status mb' = Idle \<and> system_messages mb' = []
     \<and> (suspended mb' \<or> user_mailbox mb' = [])
     \<and> (\<exists>es. trace mb' = trace mb @ es
           \<and> system_messages mb = invoked_system es
           \<and> user_mailbox mb = invoked_user es @ user_mailbox mb'))"
proof (intro conjI impI)
  show "\<exists>es. trace (fst (process_messages recv mb)) = trace mb @ es
         \<and> int (length (filter invocation es)) \<le> max 0 (throughput d)"
    if "dispatcher mb = Some d"
    using that by (rule process_messages_invocations)
  show "run (Suc fuel) recv mb =
      (case process_messages recv mb of
         (mb1, Inl x) \<Rightarrow> Some (mb1, Some x)
       | (mb1, Inr dn) \<Rightarrow>
           if system_messages mb1 \<noteq> [] \<or> (\<not> suspended mb1 \<and> user_mailbox mb1 \<noteq> [])
           then schedule fuel recv (mb1\<lparr>status := Idle\<rparr>)
           else Some (emit MailboxEmpty (mb1\<lparr>status := Idle\<rparr>), None))"
  proof -
    obtain mb1 r where p: "process_messages recv mb = (mb1, r)"
      by (cases "process_messages recv mb") auto
    show ?thesis
    proof (cases r)
      case (Inl x)
      with p show ?thesis by (simp add: run_unfold after_process_simps)
    next
      case (Inr dn)
      have "dn" using process_messages_done [of recv mb] p Inr by auto
      with p Inr show ?thesis
        by (simp add: run_unfold after_process_simps has_messages_def)
    qed
  qed
  show "schedule fuel recv mb = run fuel recv (emit DispatcherSchedule (mb\<lparr>status := Busy\<rparr>))"
    if "status mb = Idle \<and> dispatcher mb = Some d"
    using that by (simp add: schedule_cases)
  show "run fuel recv mb \<noteq> None"
    if "dispatcher mb = Some d \<and> 0 < throughput d \<and> queued mb < fuel"
    using that run_terminates [of mb d fuel recv] by blast
next
  assume a: "schedule fuel recv mb = Some (mb', None) \<and> status mb = Idle"
  then have dr: "status mb' = Idle \<and> system_messages mb' = []
      \<and> (suspended mb' \<or> user_mailbox mb' = [])"
    using schedule_drained [of fuel recv mb mb'] by blast
  from dr show "status mb' = Idle" by simp
  from dr show "system_messages mb' = []" by simp
  from dr show "suspended mb' \<or> user_mailbox mb' = []" by simp
  from a have "delivers mb mb'"
    using delivers_schedule [of fuel recv mb mb' None] by blast
  with dr show "\<exists>es. trace mb' = trace mb @ es
           \<and> system_messages mb = invoked_system es
           \<and> user_mailbox mb = invoked_user es @ user_mailbox mb'"
    by (auto simp: delivers_def)
qed

theorem throughput_bounds_a_run_witness:
  "dispatcher ten_messages = Some \<lparr>throughput = 3\<rparr>
 \<and> status ten_messages = Idle
 \<and> queued ten_messages < 11
 \<and> (\<exists>es. trace (fst (process_messages recv_count ten_messages)) = trace ten_messages @ es
        \<and> int (length (filter invocation es)) \<le> 3)
 \<and> (\<exists>mb' es. schedule 11 recv_count ten_messages = Some (mb', None)
        \<and> status mb' = Idle
        \<and> user_mailbox mb' = []
        \<and> trace mb' = trace ten_messages @ es
        \<and> user_mailbox ten_messages = invoked_user es)
 \<and> filter run_boundary_or_invocation (trace_of (schedule 11 recv_count ten_messages))
     = [DispatcherSchedule,
        InvokeUser (new_Hello ''0''), InvokeUser (new_Hello ''1''), InvokeUser (new_Hello ''2''),
        DispatcherSchedule,
        InvokeUser (new_Hello ''3''), InvokeUser (new_Hello ''4''), InvokeUser (new_Hello ''5''),
        DispatcherSchedule,
        InvokeUser (new_Hello ''6''), InvokeUser (new_Hello ''7''), InvokeUser (new_Hello ''8''),
        DispatcherSchedule,
        InvokeUser (new_Hello ''9''), MailboxEmpty]"
proof -
  note t = throughput_bounds_a_run [where mb = ten_messages and recv = recv_count
      and d = "\<lparr>throughput = 3\<rparr>" and fuel = 11]
  have s: "dispatcher ten_messages = Some \<lparr>throughput = 3\<rparr>" "status ten_messages = Idle"
      "queued ten_messages < 11" "(0::int) < throughput \<lparr>throughput = 3\<rparr>"
    by (simp_all add: ten_messages_def queued_def eval_rules)
  have a: "\<exists>es. trace (fst (process_messages recv_count ten_messages)) = trace ten_messages @ es
        \<and> int (length (filter invocation es)) \<le> 3"
    using t [where mb' = ten_messages] s by simp
  have "run 11 recv_count (emit DispatcherSchedule (ten_messages\<lparr>status := Busy\<rparr>)) \<noteq> None"
  proof -
    have "dispatcher (emit DispatcherSchedule (ten_messages\<lparr>status := Busy\<rparr>))
        = Some \<lparr>throughput = 3\<rparr>"
      "queued (emit DispatcherSchedule (ten_messages\<lparr>status := Busy\<rparr>)) < 11"
      using s by (simp_all add: emit_def queued_def)
    then show ?thesis
      using throughput_bounds_a_run
        [where mb = "emit DispatcherSchedule (ten_messages\<lparr>status := Busy\<rparr>)"
          and recv = recv_count and d = "\<lparr>throughput = 3\<rparr>" and fuel = 11
          and mb' = ten_messages] s(4)
      by blast
  qed
  then have n: "schedule 11 recv_count ten_messages \<noteq> None"
    using t [where mb' = ten_messages] s by simp
  have x: "snd (the (schedule 11 recv_count ten_messages)) = None"
    and f: "filter run_boundary_or_invocation (trace_of (schedule 11 recv_count ten_messages))
     = [DispatcherSchedule,
        InvokeUser (new_Hello ''0''), InvokeUser (new_Hello ''1''), InvokeUser (new_Hello ''2''),
        DispatcherSchedule,
        InvokeUser (new_Hello ''3''), InvokeUser (new_Hello ''4''), InvokeUser (new_Hello ''5''),
        DispatcherSchedule,
        InvokeUser (new_Hello ''6''), InvokeUser (new_Hello ''7''), InvokeUser (new_Hello ''8''),
        DispatcherSchedule,
        InvokeUser (new_Hello ''9''), MailboxEmpty]"
    and ns: "\<not> suspended (fst (the (schedule 11 recv_count ten_messages)))"
    by (simp_all add: ten_messages_def eval_rules)
  from n x obtain mb1 where h: "schedule 11 recv_count ten_messages = Some (mb1, None)"
    by (cases "schedule 11 recv_count ten_messages") auto
  have ns1: "\<not> suspended mb1" using ns h by simp
  have b: "status mb1 = Idle \<and> (suspended mb1 \<or> user_mailbox mb1 = [])
      \<and> (\<exists>es. trace mb1 = trace ten_messages @ es
           \<and> user_mailbox ten_messages = invoked_user es @ user_mailbox mb1)"
    using t [where mb' = mb1] h s(2) by blast
  then have c: "user_mailbox mb1 = []" using ns1 by blast
  with b have "\<exists>es. trace mb1 = trace ten_messages @ es
           \<and> user_mailbox ten_messages = invoked_user es"
    by auto
  with s a h b c f show ?thesis by blast
qed

theorem reschedule_either_queue_counterexample:
  "map_option user_mailbox (result_mailbox (schedule 2 recv_count suspended_waiting))
     = Some [new_Hello ''waiting'']
 \<and> map_option status (result_mailbox (schedule 2 recv_count suspended_waiting)) = Some Idle
 \<and> trace_of (schedule 2 recv_count suspended_waiting)
     = [HandlersRegistered, DispatcherSchedule, PopSystem None, MailboxEmpty]"
  by (simp add: suspended_waiting_def result_mailbox_def eval_rules)

text \<open>
  C3. Over any sequence of drain iterations, in one pass or across the runs a schedule
  starts, the flag \<open>suspended\<close> is what the popped system messages make it (set by a
  \<open>SuspendMailboxMessage\<close>, cleared by a \<open>ResumeMailboxMessage\<close>), and while it is set the
  user queue is neither popped nor is a user message invoked. System messages go on being
  popped and invoked while the mailbox is suspended: a pass of a suspended mailbox starts
  by popping and invoking the system message at the head of the queue, and when a schedule
  of an idle mailbox returns normally the system queue is empty.
\<close>

theorem suspension_blocks_user_messages:
  "(\<exists>es. trace (fst (process_messages recv mb)) = trace mb @ es
       \<and> no_user_while_suspended (suspended mb) es
       \<and> suspended (fst (process_messages recv mb)) = suspended_after (suspended mb) es)
 \<and> (schedule fuel recv mb = Some (mb', x) \<longrightarrow>
       (\<exists>es. trace mb' = trace mb @ es
          \<and> no_user_while_suspended (suspended mb) es
          \<and> suspended mb' = suspended_after (suspended mb) es))
 \<and> (suspended mb \<and> system_messages mb = m # ms \<and> dispatcher mb = Some d \<and> 0 < throughput d
       \<longrightarrow> (\<exists>es. trace (fst (process_messages recv mb))
                 = trace mb @ PopSystem (Some m) # InvokeSystem m # es))
 \<and> (schedule fuel recv mb = Some (mb', None) \<and> status mb = Idle \<longrightarrow>
       system_messages mb' = [])"
proof (intro conjI impI)
  have "suspend_discipline mb (fst (process_messages recv mb))"
    by (rule suspend_discipline_process_messages)
  then show "\<exists>es. trace (fst (process_messages recv mb)) = trace mb @ es
       \<and> no_user_while_suspended (suspended mb) es
       \<and> suspended (fst (process_messages recv mb)) = suspended_after (suspended mb) es"
    by (simp add: suspend_discipline_def)
next
  assume "schedule fuel recv mb = Some (mb', x)"
  then have "suspend_discipline mb mb'"
    by (rule suspend_discipline_schedule)
  then show "\<exists>es. trace mb' = trace mb @ es
          \<and> no_user_while_suspended (suspended mb) es
          \<and> suspended mb' = suspended_after (suspended mb) es"
    by (simp add: suspend_discipline_def)
next
  assume a: "suspended mb \<and> system_messages mb = m # ms \<and> dispatcher mb = Some d
      \<and> 0 < throughput d"
  then obtain es where es: "trace (fst (iteration recv mb))
      = trace mb @ [PopSystem (Some m), InvokeSystem m] @ es"
    using iteration_system(3) [of mb m ms recv] by blast
  from a have "drains (fst (iteration recv mb)) (fst (process_messages recv mb))"
    using process_messages_first [of mb d recv] by blast
  then obtain fs where "trace (fst (process_messages recv mb))
      = trace (fst (iteration recv mb)) @ fs"
    by (auto simp: drains_def)
  with es show "\<exists>es. trace (fst (process_messages recv mb))
      = trace mb @ PopSystem (Some m) # InvokeSystem m # es"
    by simp
next
  assume "schedule fuel recv mb = Some (mb', None) \<and> status mb = Idle"
  then show "system_messages mb' = []"
    using schedule_drained [of fuel recv mb mb'] by blast
qed

theorem suspension_blocks_user_messages_witness:
  "(\<exists>mb' es. schedule 6 recv_count suspend_resume_mailbox = Some (mb', None)
       \<and> status suspend_resume_mailbox = Idle
       \<and> trace mb' = trace suspend_resume_mailbox @ es
       \<and> no_user_while_suspended (suspended suspend_resume_mailbox) es
       \<and> suspended mb' = suspended_after (suspended suspend_resume_mailbox) es
       \<and> system_messages mb' = [])
 \<and> suspended suspended_mailbox
 \<and> system_messages suspended_mailbox = [new_SystemMessage False]
 \<and> dispatcher suspended_mailbox = Some \<lparr>throughput = 3\<rparr>
 \<and> (\<exists>es. trace (fst (process_messages recv_count suspended_mailbox))
        = trace suspended_mailbox
          @ PopSystem (Some (new_SystemMessage False))
          # InvokeSystem (new_SystemMessage False) # es)"
proof -
  note t = suspension_blocks_user_messages
  have "schedule 6 recv_count suspend_resume_mailbox \<noteq> None"
    "snd (the (schedule 6 recv_count suspend_resume_mailbox)) = None"
    by (simp_all add: suspend_resume_mailbox_def eval_rules)
  then obtain mb1 where h: "schedule 6 recv_count suspend_resume_mailbox = Some (mb1, None)"
    by (cases "schedule 6 recv_count suspend_resume_mailbox") auto
  have i: "status suspend_resume_mailbox = Idle"
    by (simp add: suspend_resume_mailbox_def eval_rules)
  have s: "suspended suspended_mailbox"
    "system_messages suspended_mailbox = [new_SystemMessage False]"
    "dispatcher suspended_mailbox = Some \<lparr>throughput = 3\<rparr>"
    by (simp_all add: suspended_mailbox_def eval_rules)
  have a: "\<exists>es. trace mb1 = trace suspend_resume_mailbox @ es
       \<and> no_user_while_suspended (suspended suspend_resume_mailbox) es
       \<and> suspended mb1 = suspended_after (suspended suspend_resume_mailbox) es"
    using t [where fuel = 6 and recv = recv_count and mb = suspend_resume_mailbox
        and mb' = mb1 and x = None and m = "new_SystemMessage False" and ms = "[]"
        and d = "\<lparr>throughput = 3\<rparr>"] h
    by blast
  have b: "system_messages mb1 = []"
    using t [where fuel = 6 and recv = recv_count and mb = suspend_resume_mailbox
        and mb' = mb1 and x = None and m = "new_SystemMessage False" and ms = "[]"
        and d = "\<lparr>throughput = 3\<rparr>"] h i
    by blast
  have c: "\<exists>es. trace (fst (process_messages recv_count suspended_mailbox))
        = trace suspended_mailbox
          @ PopSystem (Some (new_SystemMessage False))
          # InvokeSystem (new_SystemMessage False) # es"
    using t [where fuel = 6 and recv = recv_count and mb = suspended_mailbox
        and mb' = mb1 and x = None and m = "new_SystemMessage False" and ms = "[]"
        and d = "\<lparr>throughput = 3\<rparr>"] s
    by simp
  show ?thesis
    using h i a b c s by blast
qed

text \<open>
  C4. Every iteration of the drain loop pops the system queue first. If a system message
  is there, the iteration invokes it as a system message on the invoker and ends without
  touching the user queue, and the loop goes on (or the invoker threw). The user queue is
  popped, and a user message invoked, only when the system pop gave nothing and the
  mailbox is not suspended: a suspended mailbox ends the pass after the empty system pop,
  and an empty user pop ends the pass as well.
\<close>

theorem iteration_prefers_system_queue:
  "(\<exists>es. trace (fst (iteration recv mb))
      = trace mb @ PopSystem (case system_messages mb of [] \<Rightarrow> None | k # ks \<Rightarrow> Some k) # es)
 \<and> (system_messages mb = m # ms \<longrightarrow>
       system_messages (fst (iteration recv mb)) = ms
     \<and> user_mailbox (fst (iteration recv mb)) = user_mailbox mb
     \<and> (\<exists>es. trace (fst (iteration recv mb))
            = trace mb @ [PopSystem (Some m), InvokeSystem m] @ es
          \<and> (es = [] \<or> es = [MessageReceived m]))
     \<and> (invoker mb = Some c \<longrightarrow>
          invoker (fst (iteration recv mb)) = Some (fst (invoke_system_message recv m c)))
     \<and> snd (snd (iteration recv mb)) \<noteq> Break)
 \<and> (system_messages mb = [] \<and> suspended mb \<longrightarrow>
       iteration recv mb = (emit (PopSystem None) mb, None, Break))
 \<and> (system_messages mb = [] \<and> \<not> suspended mb \<and> user_mailbox mb = m # ms \<longrightarrow>
       user_mailbox (fst (iteration recv mb)) = ms
     \<and> (\<exists>es. trace (fst (iteration recv mb))
            = trace mb @ [PopSystem None, PopUser (Some m), InvokeUser m] @ es
          \<and> (es = [] \<or> es = [MessageReceived m]))
     \<and> (invoker mb = Some c \<longrightarrow>
          invoker (fst (iteration recv mb)) = Some (fst (invoke_user_message recv m c)))
     \<and> snd (snd (iteration recv mb)) \<noteq> Break)
 \<and> (system_messages mb = [] \<and> \<not> suspended mb \<and> user_mailbox mb = [] \<longrightarrow>
       iteration recv mb = (emit (PopUser None) (emit (PopSystem None) mb), None, Break))
 \<and> ((\<exists>e \<in> set (emitted mb (fst (iteration recv mb))). touches_user_queue e) \<longrightarrow>
       system_messages mb = [] \<and> \<not> suspended mb)
 \<and> (dispatcher mb = Some d \<and> i < throughput d \<and> snd (snd (iteration recv mb)) = Break \<longrightarrow>
       process_loop recv i msg mb
         = (fst (iteration recv mb), fst (snd (iteration recv mb)), None))"
proof (intro conjI impI)
  show "\<exists>es. trace (fst (iteration recv mb))
      = trace mb @ PopSystem (case system_messages mb of [] \<Rightarrow> None | k # ks \<Rightarrow> Some k) # es"
    by (rule iteration_pops_system_first)
  show "system_messages (fst (iteration recv mb)) = ms" if "system_messages mb = m # ms"
    using that by (rule iteration_system)
  show "user_mailbox (fst (iteration recv mb)) = user_mailbox mb"
    if "system_messages mb = m # ms"
    using that by (rule iteration_system)
  show "\<exists>es. trace (fst (iteration recv mb))
            = trace mb @ [PopSystem (Some m), InvokeSystem m] @ es
          \<and> (es = [] \<or> es = [MessageReceived m])"
    if "system_messages mb = m # ms"
    using that by (rule iteration_system)
  show "invoker (fst (iteration recv mb)) = Some (fst (invoke_system_message recv m c))"
    if "system_messages mb = m # ms" "invoker mb = Some c"
    using that by (rule iteration_system)
  show "snd (snd (iteration recv mb)) \<noteq> Break" if "system_messages mb = m # ms"
    using that by (rule iteration_system)
  show "iteration recv mb = (emit (PopSystem None) mb, None, Break)"
    if "system_messages mb = [] \<and> suspended mb"
    using that by (simp add: iteration_suspended)
  show "user_mailbox (fst (iteration recv mb)) = ms"
    if "system_messages mb = [] \<and> \<not> suspended mb \<and> user_mailbox mb = m # ms"
    using that by (simp add: iteration_user)
  show "\<exists>es. trace (fst (iteration recv mb))
            = trace mb @ [PopSystem None, PopUser (Some m), InvokeUser m] @ es
          \<and> (es = [] \<or> es = [MessageReceived m])"
    if "system_messages mb = [] \<and> \<not> suspended mb \<and> user_mailbox mb = m # ms"
    using that iteration_user(3) [of mb m ms recv] by blast
  show "invoker (fst (iteration recv mb)) = Some (fst (invoke_user_message recv m c))"
    if "system_messages mb = [] \<and> \<not> suspended mb \<and> user_mailbox mb = m # ms"
      "invoker mb = Some c"
    using that by (simp add: iteration_user)
  show "snd (snd (iteration recv mb)) \<noteq> Break"
    if "system_messages mb = [] \<and> \<not> suspended mb \<and> user_mailbox mb = m # ms"
    using that iteration_user(5) [of mb m ms recv] by blast
  show "iteration recv mb = (emit (PopUser None) (emit (PopSystem None) mb), None, Break)"
    if "system_messages mb = [] \<and> \<not> suspended mb \<and> user_mailbox mb = []"
    using that by (simp add: iteration_empty)
  show "system_messages mb = []"
    if "\<exists>e \<in> set (emitted mb (fst (iteration recv mb))). touches_user_queue e"
    using iteration_user_only_if [OF that] by simp
  show "\<not> suspended mb"
    if "\<exists>e \<in> set (emitted mb (fst (iteration recv mb))). touches_user_queue e"
    using iteration_user_only_if [OF that] by simp
  show "process_loop recv i msg mb
         = (fst (iteration recv mb), fst (snd (iteration recv mb)), None)"
    if "dispatcher mb = Some d \<and> i < throughput d \<and> snd (snd (iteration recv mb)) = Break"
    using that process_loop_break [of mb d i recv msg] by blast
qed


theorem iteration_prefers_system_queue_witness:
  "system_messages suspended_mailbox = [new_SystemMessage False]
 \<and> invoker suspended_mailbox = Some (new_LocalContext 0 None)
 \<and> system_messages (fst (iteration recv_count suspended_mailbox)) = []
 \<and> user_mailbox (fst (iteration recv_count suspended_mailbox)) = user_mailbox suspended_mailbox
 \<and> snd (snd (iteration recv_count suspended_mailbox)) \<noteq> Break
 \<and> invoker (fst (iteration recv_count suspended_mailbox))
     = Some (fst (invoke_system_message recv_count (new_SystemMessage False)
         (new_LocalContext 0 None)))
 \<and> system_messages suspended_waiting = [] \<and> suspended suspended_waiting
 \<and> iteration recv_count suspended_waiting = (emit (PopSystem None) suspended_waiting, None, Break)
 \<and> system_messages one_user_message = [] \<and> \<not> suspended one_user_message
 \<and> user_mailbox one_user_message = [new_Hello ''ProtoActor'']
 \<and> user_mailbox (fst (iteration recv_count one_user_message)) = []
 \<and> invoker (fst (iteration recv_count one_user_message))
     = Some (fst (invoke_user_message recv_count (new_Hello ''ProtoActor'')
         (new_LocalContext 0 None)))
 \<and> (\<exists>e \<in> set (emitted one_user_message (fst (iteration recv_count one_user_message))).
       touches_user_queue e)
 \<and> user_mailbox (bound_mailbox 3) = []
 \<and> iteration recv_count (bound_mailbox 3)
     = (emit (PopUser None) (emit (PopSystem None) (bound_mailbox 3)), None, Break)
 \<and> dispatcher (bound_mailbox 3) = Some \<lparr>throughput = 3\<rparr>
 \<and> process_loop recv_count 0 None (bound_mailbox 3)
     = (fst (iteration recv_count (bound_mailbox 3)),
        fst (snd (iteration recv_count (bound_mailbox 3))), None)"
proof -
  note t = iteration_prefers_system_queue
  have s1: "system_messages suspended_mailbox = [new_SystemMessage False]"
    "invoker suspended_mailbox = Some (new_LocalContext 0 None)"
    by (simp_all add: suspended_mailbox_def bound_mailbox_def register_handlers_def emit_def)
  have s2: "system_messages suspended_waiting = [] \<and> suspended suspended_waiting"
    by (simp add: suspended_waiting_def bound_mailbox_def register_handlers_def emit_def
        UnboundedMailbox_create_def)
  have s3: "system_messages one_user_message = [] \<and> \<not> suspended one_user_message
      \<and> user_mailbox one_user_message = [new_Hello ''ProtoActor'']"
    "invoker one_user_message = Some (new_LocalContext 0 None)"
    by (simp_all add: one_user_message_def bound_mailbox_def register_handlers_def emit_def
        UnboundedMailbox_create_def)
  have s4: "system_messages (bound_mailbox 3) = [] \<and> \<not> suspended (bound_mailbox 3)
      \<and> user_mailbox (bound_mailbox 3) = []"
    "dispatcher (bound_mailbox 3) = Some \<lparr>throughput = 3\<rparr>"
    by (simp_all add: bound_mailbox_def register_handlers_def emit_def
        UnboundedMailbox_create_def)
  have s5: "\<exists>e \<in> set (emitted one_user_message (fst (iteration recv_count one_user_message))).
      touches_user_queue e"
    by (simp add: emitted_def one_user_message_def eval_rules)
  have a: "system_messages (fst (iteration recv_count suspended_mailbox)) = []
      \<and> user_mailbox (fst (iteration recv_count suspended_mailbox))
          = user_mailbox suspended_mailbox
      \<and> snd (snd (iteration recv_count suspended_mailbox)) \<noteq> Break
      \<and> invoker (fst (iteration recv_count suspended_mailbox))
          = Some (fst (invoke_system_message recv_count (new_SystemMessage False)
              (new_LocalContext 0 None)))"
    using t [where mb = suspended_mailbox and recv = recv_count
        and m = "new_SystemMessage False" and ms = "[]" and c = "new_LocalContext 0 None"
        and d = "\<lparr>throughput = 3\<rparr>" and i = 0 and msg = None] s1
    by blast
  have b: "iteration recv_count suspended_waiting
      = (emit (PopSystem None) suspended_waiting, None, Break)"
    using t [where mb = suspended_waiting and recv = recv_count
        and m = "new_SystemMessage False" and ms = "[]" and c = "new_LocalContext 0 None"
        and d = "\<lparr>throughput = 3\<rparr>" and i = 0 and msg = None] s2
    by blast
  have c: "user_mailbox (fst (iteration recv_count one_user_message)) = []
      \<and> invoker (fst (iteration recv_count one_user_message))
          = Some (fst (invoke_user_message recv_count (new_Hello ''ProtoActor'')
              (new_LocalContext 0 None)))"
    using t [where mb = one_user_message and recv = recv_count
        and m = "new_Hello ''ProtoActor''" and ms = "[]" and c = "new_LocalContext 0 None"
        and d = "\<lparr>throughput = 3\<rparr>" and i = 0 and msg = None] s3
    by blast
  have d: "iteration recv_count (bound_mailbox 3)
      = (emit (PopUser None) (emit (PopSystem None) (bound_mailbox 3)), None, Break)"
    using t [where mb = "bound_mailbox 3" and recv = recv_count
        and m = "new_Hello ''ProtoActor''" and ms = "[]" and c = "new_LocalContext 0 None"
        and d = "\<lparr>throughput = 3\<rparr>" and i = 0 and msg = None] s4
    by blast
  have e: "process_loop recv_count 0 None (bound_mailbox 3)
      = (fst (iteration recv_count (bound_mailbox 3)),
         fst (snd (iteration recv_count (bound_mailbox 3))), None)"
    using t [where mb = "bound_mailbox 3" and recv = recv_count
        and m = "new_Hello ''ProtoActor''" and ms = "[]" and c = "new_LocalContext 0 None"
        and d = "\<lparr>throughput = 3\<rparr>" and i = 0 and msg = None] s4 d
    by simp
  show ?thesis
    using s1 s2 s3 s4 s5 a b c d e by blast
qed

text \<open>
  C5 (as amended). When the invoker throws an exception that derives from
  \<open>std::exception\<close> during a drain pass, the drain catches it, calls
  \<open>invoker.escalate_failure\<close> with the exception and the message in flight (the message
  whose invocation was the last call before the throw), and ends the pass. \<open>run\<close> then
  sets the status to \<open>Idle\<close> and reschedules if and only if the system queue is not empty
  or the mailbox is not suspended and the user queue is not empty. The default
  \<open>escalate_failure\<close> leaves the context as it is, and the messages still queued are
  delivered by the later runs: when a schedule of an idle mailbox returns normally, the
  mailbox is idle, the system queue is empty, the user queue is empty unless the mailbox is
  suspended, and every message that left a queue was invoked, in order.
\<close>

theorem std_exception_is_escalated:
  "(process_loop recv 0 None mb = (mba, msg, Some (Throw e)) \<and> derives_std_exception e \<longrightarrow>
      (\<exists>m. msg = Some m
         \<and> (last (trace mba) = InvokeSystem m \<or> last (trace mba) = InvokeUser m)
         \<and> process_messages recv mb = (emit (EscalateFailure e (Some m)) mba, Inr True)
         \<and> run (Suc fuel) recv mb =
             (if system_messages mba \<noteq> [] \<or> (\<not> suspended mba \<and> user_mailbox mba \<noteq> [])
              then schedule fuel recv ((emit (EscalateFailure e (Some m)) mba)\<lparr>status := Idle\<rparr>)
              else Some (emit MailboxEmpty
                     ((emit (EscalateFailure e (Some m)) mba)\<lparr>status := Idle\<rparr>), None))))
 \<and> escalate_failure e mo c = c
 \<and> (schedule fuel recv mb = Some (mb', None) \<and> status mb = Idle \<longrightarrow>
       status mb' = Idle \<and> system_messages mb' = []
     \<and> (suspended mb' \<or> user_mailbox mb' = [])
     \<and> (\<exists>es. trace mb' = trace mb @ es
           \<and> system_messages mb = invoked_system es
           \<and> user_mailbox mb = invoked_user es @ user_mailbox mb'))"
proof (intro conjI impI)
  assume a: "process_loop recv 0 None mb = (mba, msg, Some (Throw e)) \<and> derives_std_exception e"
  then obtain m where m: "msg = Some m" "invoker mba \<noteq> None"
      "last (trace mba) = InvokeSystem m \<or> last (trace mba) = InvokeUser m"
    using process_loop_throw [of recv 0 None mb mba msg e] by blast
  let ?m1 = "emit (EscalateFailure e (Some m)) mba"
  have p: "process_messages recv mb = (?m1, Inr True)"
    using a m by (simp add: process_messages_cases)
  have r: "run (Suc fuel) recv mb =
      (if system_messages mba \<noteq> [] \<or> (\<not> suspended mba \<and> user_mailbox mba \<noteq> [])
       then schedule fuel recv (?m1\<lparr>status := Idle\<rparr>)
       else Some (emit MailboxEmpty (?m1\<lparr>status := Idle\<rparr>), None))"
    using p by (simp add: run_unfold after_process_simps has_messages_def emit_def)
  from m p r show "\<exists>m. msg = Some m
         \<and> (last (trace mba) = InvokeSystem m \<or> last (trace mba) = InvokeUser m)
         \<and> process_messages recv mb = (emit (EscalateFailure e (Some m)) mba, Inr True)
         \<and> run (Suc fuel) recv mb =
             (if system_messages mba \<noteq> [] \<or> (\<not> suspended mba \<and> user_mailbox mba \<noteq> [])
              then schedule fuel recv ((emit (EscalateFailure e (Some m)) mba)\<lparr>status := Idle\<rparr>)
              else Some (emit MailboxEmpty
                     ((emit (EscalateFailure e (Some m)) mba)\<lparr>status := Idle\<rparr>), None))"
    by blast
next
  show "escalate_failure e mo c = c"
    by (simp add: escalate_failure_def)
next
  assume a: "schedule fuel recv mb = Some (mb', None) \<and> status mb = Idle"
  then have dr: "status mb' = Idle \<and> system_messages mb' = []
      \<and> (suspended mb' \<or> user_mailbox mb' = [])"
    using schedule_drained [of fuel recv mb mb'] by blast
  from dr show "status mb' = Idle" by simp
  from dr show "system_messages mb' = []" by simp
  from dr show "suspended mb' \<or> user_mailbox mb' = []" by simp
  from a have "delivers mb mb'"
    using delivers_schedule [of fuel recv mb mb' None] by blast
  with dr show "\<exists>es. trace mb' = trace mb @ es
           \<and> system_messages mb = invoked_system es
           \<and> user_mailbox mb = invoked_user es @ user_mailbox mb'"
    by (auto simp: delivers_def)
qed

theorem std_exception_is_escalated_witness:
  "(\<exists>mb1. process_loop recv_failing 0 None failing_mailbox
        = (mb1, Some (new_Hello ''boom''), Some (Throw (std_exception ''boom'')))
      \<and> derives_std_exception (std_exception ''boom'')
      \<and> last (trace mb1) = InvokeUser (new_Hello ''boom'')
      \<and> process_messages recv_failing failing_mailbox
          = (emit (EscalateFailure (std_exception ''boom'') (Some (new_Hello ''boom''))) mb1,
             Inr True)
      \<and> user_mailbox mb1 = [new_Hello ''next''])
 \<and> status failing_mailbox = Idle
 \<and> (\<exists>mb' es. schedule 3 recv_failing failing_mailbox = Some (mb', None)
      \<and> status mb' = Idle
      \<and> trace mb' = trace failing_mailbox @ es
      \<and> invoked_user es @ user_mailbox mb' = [new_Hello ''boom'', new_Hello ''next''])
 \<and> filter run_boundary_or_invocation (trace_of (schedule 3 recv_failing failing_mailbox))
     = [DispatcherSchedule, InvokeUser (new_Hello ''boom''), DispatcherSchedule,
        InvokeUser (new_Hello ''next''), MailboxEmpty]"
proof -
  let ?mb1 = "fst (process_loop recv_failing 0 None failing_mailbox)"
  have l: "fst (snd (process_loop recv_failing 0 None failing_mailbox))
      = Some (new_Hello ''boom'')"
    "snd (snd (process_loop recv_failing 0 None failing_mailbox))
      = Some (Throw (std_exception ''boom''))"
    "user_mailbox ?mb1 = [new_Hello ''next'']"
    "last (trace ?mb1) = InvokeUser (new_Hello ''boom'')"
    by (simp_all add: failing_mailbox_def eval_rules)
  have h: "process_loop recv_failing 0 None failing_mailbox
      = (?mb1, Some (new_Hello ''boom''), Some (Throw (std_exception ''boom'')))"
    using l by (cases "process_loop recv_failing 0 None failing_mailbox") simp
  have d: "derives_std_exception (std_exception ''boom'')"
    by simp
  have i: "status failing_mailbox = Idle"
    by (simp add: failing_mailbox_def eval_rules)
  have n: "schedule 3 recv_failing failing_mailbox \<noteq> None"
    "snd (the (schedule 3 recv_failing failing_mailbox)) = None"
    and f: "filter run_boundary_or_invocation
        (trace_of (schedule 3 recv_failing failing_mailbox))
      = [DispatcherSchedule, InvokeUser (new_Hello ''boom''), DispatcherSchedule,
         InvokeUser (new_Hello ''next''), MailboxEmpty]"
    and u: "user_mailbox failing_mailbox = [new_Hello ''boom'', new_Hello ''next'']"
    by (simp_all add: failing_mailbox_def eval_rules)
  from n obtain mb2 where h2: "schedule 3 recv_failing failing_mailbox = Some (mb2, None)"
    by (cases "schedule 3 recv_failing failing_mailbox") auto
  note t = std_exception_is_escalated [where recv = recv_failing and mb = failing_mailbox
      and mba = ?mb1 and msg = "Some (new_Hello ''boom'')" and e = "std_exception ''boom''"
      and fuel = 3 and mb' = mb2 and mo = None and c = "new_LocalContext 0 None"]
  have "\<exists>m. Some (new_Hello ''boom'') = Some m
      \<and> process_messages recv_failing failing_mailbox
          = (emit (EscalateFailure (std_exception ''boom'') (Some m)) ?mb1, Inr True)"
    using t h d by blast
  then have a: "process_messages recv_failing failing_mailbox
      = (emit (EscalateFailure (std_exception ''boom'') (Some (new_Hello ''boom''))) ?mb1,
         Inr True)"
    by auto
  have b: "status mb2 = Idle
      \<and> (\<exists>es. trace mb2 = trace failing_mailbox @ es
           \<and> user_mailbox failing_mailbox = invoked_user es @ user_mailbox mb2)"
    using t h2 i by blast
  then have b': "\<exists>es. trace mb2 = trace failing_mailbox @ es
      \<and> invoked_user es @ user_mailbox mb2 = [new_Hello ''boom'', new_Hello ''next'']"
    using u by auto
  show ?thesis
    using h d a l(3) l(4) i h2 b b' f by blast
qed

theorem non_std_exception_counterexample:
  "result_abrupt (schedule 3 recv_failing crashing_mailbox) = Some (Some (Throw non_std_exception))
 \<and> map_option status (result_mailbox (schedule 3 recv_failing crashing_mailbox)) = Some Busy
 \<and> map_option user_mailbox (result_mailbox (schedule 3 recv_failing crashing_mailbox))
     = Some [new_Hello ''next'']
 \<and> trace_of (schedule 3 recv_failing crashing_mailbox)
     = [HandlersRegistered, DispatcherSchedule, PopSystem None,
        PopUser (Some (new_Hello ''crash'')), InvokeUser (new_Hello ''crash'')]
 \<and> trace_of (post_user_message 3 recv_failing (new_Hello ''later'')
       (the (result_mailbox (schedule 3 recv_failing crashing_mailbox))))
     = [HandlersRegistered, DispatcherSchedule, PopSystem None,
        PopUser (Some (new_Hello ''crash'')), InvokeUser (new_Hello ''crash''),
        MessagePosted (new_Hello ''later''), PushUser (new_Hello ''later'')]"
  by (simp add: crashing_mailbox_def result_mailbox_def result_abrupt_def eval_rules)

text \<open>
  C6. \<open>try_add\<close> raises \<open>ProcessNameExistException\<close> (the spec's NameAlreadyExists) exactly
  when the id is already mapped, and then leaves the registry, and so the mapping of the
  id, as it was. Otherwise it maps the id to the process, changes no other mapping, and
  returns a PID with the registry's address and the given id. Hence, once a call of
  \<open>spawn_named\<close> with a name has returned, in whatever way, a second call with that name
  raises \<open>ProcessNameExistException\<close> and changes nothing.
\<close>

theorem try_add_raises_iff_mapped:
  "(snd (try_add i pr reg) = Inl (ProcessNameExistException i)
      \<longleftrightarrow> i \<in> dom (local_actor_refs reg))
 \<and> (snd (try_add i pr reg) = Inl e \<longrightarrow>
       e = ProcessNameExistException i \<and> fst (try_add i pr reg) = reg)
 \<and> (i \<notin> dom (local_actor_refs reg) \<longrightarrow>
       (\<exists>pid. snd (try_add i pr reg) = Inr pid
          \<and> pid_address pid = address reg \<and> pid_id pid = i)
       \<and> local_actor_refs (fst (try_add i pr reg)) = (local_actor_refs reg)(i \<mapsto> pr)
       \<and> address (fst (try_add i pr reg)) = address reg)
 \<and> (spawn_named fuel recv props i reg = Some (rega, r) \<longrightarrow>
       spawn_named fuel' recv' props' i rega
         = Some (rega, Inl (Throw (ProcessNameExistException i))))"
proof (intro conjI impI)
  show "(snd (try_add i pr reg) = Inl (ProcessNameExistException i))
      = (i \<in> dom (local_actor_refs reg))"
    by (auto simp: try_add_def Let_def split: option.splits)
  show "e = ProcessNameExistException i" if "snd (try_add i pr reg) = Inl e"
    using that by (auto simp: try_add_def Let_def split: option.splits)
  show "fst (try_add i pr reg) = reg" if "snd (try_add i pr reg) = Inl e"
    using that by (auto simp: try_add_def Let_def split: option.splits)
  show "\<exists>pid. snd (try_add i pr reg) = Inr pid
      \<and> pid_address pid = address reg \<and> pid_id pid = i"
    if "i \<notin> dom (local_actor_refs reg)"
    using that by (auto simp: try_add_def Let_def new_PID_def split: option.splits)
  show "local_actor_refs (fst (try_add i pr reg)) = (local_actor_refs reg)(i \<mapsto> pr)"
    if "i \<notin> dom (local_actor_refs reg)"
    using that by (auto simp: try_add_def Let_def split: option.splits)
  show "address (fst (try_add i pr reg)) = address reg"
    if "i \<notin> dom (local_actor_refs reg)"
    using that by (auto simp: try_add_def Let_def split: option.splits)
  show "spawn_named fuel' recv' props' i rega
      = Some (rega, Inl (Throw (ProcessNameExistException i)))"
    if "spawn_named fuel recv props i reg = Some (rega, r)"
  proof -
    have "i \<in> dom (local_actor_refs rega)"
      using that by (rule spawn_named_registers)
    then show ?thesis
      by (auto simp: spawn_named_def default_spawner_def try_add_def Let_def)
  qed
qed

theorem try_add_raises_iff_mapped_witness:
  "(\<exists>reg1 pid. spawn_named 1 recv_count (from_producer 0) ''a'' new_ProcessRegistry
       = Some (reg1, Inr pid)
     \<and> pid_address pid = ''nonhost'' \<and> pid_id pid = ''a''
     \<and> ''a'' \<in> dom (local_actor_refs reg1)
     \<and> snd (try_add ''a'' DeadLetterProcess reg1) = Inl (ProcessNameExistException ''a'')
     \<and> fst (try_add ''a'' DeadLetterProcess reg1) = reg1
     \<and> spawn_named 1 recv_count (from_producer 0) ''a'' reg1
         = Some (reg1, Inl (Throw (ProcessNameExistException ''a''))))
 \<and> ''a'' \<notin> dom (local_actor_refs (new_ProcessRegistry :: nat ProcessRegistry))
 \<and> local_actor_refs (fst (try_add ''a'' DeadLetterProcess
       (new_ProcessRegistry :: nat ProcessRegistry))) ''a'' = Some DeadLetterProcess"
proof -
  let ?reg = "new_ProcessRegistry :: nat ProcessRegistry"
  note t = try_add_raises_iff_mapped
  have fresh: "''a'' \<notin> dom (local_actor_refs ?reg)"
    by (simp add: new_ProcessRegistry_def)
  have "spawn_named 1 recv_count (from_producer 0) ''a'' ?reg \<noteq> None"
    by (simp add: eval_rules)
  moreover have "snd (the (spawn_named 1 recv_count (from_producer 0) ''a'' ?reg))
      = Inr (new_PID ''nonhost'' ''a'')"
    by (simp add: eval_rules)
  ultimately obtain reg1 where
    h: "spawn_named 1 recv_count (from_producer 0) ''a'' ?reg
      = Some (reg1, Inr (new_PID ''nonhost'' ''a''))"
    by (cases "spawn_named 1 recv_count (from_producer 0) ''a'' ?reg") auto
  have second: "spawn_named 1 recv_count (from_producer 0) ''a'' reg1
      = Some (reg1, Inl (Throw (ProcessNameExistException ''a'')))"
    using t [where fuel = 1 and recv = recv_count and props = "from_producer 0" and i = "''a''"
      and reg = ?reg and rega = reg1 and r = "Inr (new_PID ''nonhost'' ''a'')"
      and fuel' = 1 and recv' = recv_count and props' = "from_producer 0"
      and pr = DeadLetterProcess and e = "ProcessNameExistException ''a''"] h
    by blast
  have mapped: "''a'' \<in> dom (local_actor_refs reg1)"
    using h by (rule spawn_named_registers)
  have raised: "snd (try_add ''a'' DeadLetterProcess reg1)
      = Inl (ProcessNameExistException ''a'')"
    using t [where i = "''a''" and pr = DeadLetterProcess and reg = reg1
      and e = "ProcessNameExistException ''a''" and fuel = 1 and recv = recv_count
      and props = "from_producer 0" and rega = reg1 and r = "Inr (new_PID ''nonhost'' ''a'')"
      and fuel' = 1 and recv' = recv_count and props' = "from_producer 0"] mapped
    by blast
  have same: "fst (try_add ''a'' DeadLetterProcess reg1) = reg1"
    using t [where i = "''a''" and pr = DeadLetterProcess and reg = reg1
      and e = "ProcessNameExistException ''a''" and fuel = 1 and recv = recv_count
      and props = "from_producer 0" and rega = reg1 and r = "Inr (new_PID ''nonhost'' ''a'')"
      and fuel' = 1 and recv' = recv_count and props' = "from_producer 0"] raised
    by blast
  have ins: "local_actor_refs (fst (try_add ''a'' DeadLetterProcess ?reg)) ''a''
      = Some DeadLetterProcess"
    using t [where i = "''a''" and pr = DeadLetterProcess and reg = ?reg
      and e = "ProcessNameExistException ''a''" and fuel = 1 and recv = recv_count
      and props = "from_producer 0" and rega = reg1 and r = "Inr (new_PID ''nonhost'' ''a'')"
      and fuel' = 1 and recv' = recv_count and props' = "from_producer 0"] fresh
    by simp
  have pid: "pid_address (new_PID ''nonhost'' ''a'') = ''nonhost''"
      "pid_id (new_PID ''nonhost'' ''a'') = ''a''"
    by (simp_all add: new_PID_def)
  show ?thesis
    using h pid mapped raised same second fresh ins by blast
qed

text \<open>
  C7 (as amended). \<open>post_system_message m\<close> first notifies the statistics observers of the
  post, then pushes \<open>m\<close> on the system queue, then calls \<open>schedule\<close>; \<open>post_user_message m\<close>
  notifies, pushes \<open>m\<close> on the user queue, then schedules. Whatever the post adds to the
  trace after the notification and the push is emitted by \<open>schedule\<close>: nothing when the
  mailbox is busy (the message then waits in its queue), and otherwise the events of a
  drain, starting with the call of the dispatcher.
\<close>

theorem post_notifies_then_pushes_then_schedules:
  "(post_system_message fuel recv m mb = Some (mb', x) \<longrightarrow>
      (\<exists>es. trace mb' = trace mb @ [MessagePosted m, PushSystem m] @ es
          \<and> list_all drain_event es
          \<and> (status mb = Idle \<longrightarrow> (\<exists>es'. es = DispatcherSchedule # es'))
          \<and> (status mb \<noteq> Idle \<longrightarrow> es = [] \<and> system_messages mb' = system_messages mb @ [m])))
 \<and> (post_user_message fuel recv m mb = Some (mb', x) \<longrightarrow>
      (\<exists>es. trace mb' = trace mb @ [MessagePosted m, PushUser m] @ es
          \<and> list_all drain_event es
          \<and> (status mb = Idle \<longrightarrow> (\<exists>es'. es = DispatcherSchedule # es'))
          \<and> (status mb \<noteq> Idle \<longrightarrow> es = [] \<and> user_mailbox mb' = user_mailbox mb @ [m])))"
proof (intro conjI impI)
  let ?m2 = "emit (PushSystem m)
      ((emit (MessagePosted m) mb)\<lparr>system_messages := system_messages mb @ [m]\<rparr>)"
  assume "post_system_message fuel recv m mb = Some (mb', x)"
  then have s: "schedule fuel recv ?m2 = Some (mb', x)"
    by (simp add: post_system_message_def Let_def emit_def del: schedule.simps)
  have st: "status ?m2 = status mb" "trace ?m2 = trace mb @ [MessagePosted m, PushSystem m]"
      "system_messages ?m2 = system_messages mb @ [m]"
    by (simp_all add: emit_def)
  have r: "status mb \<noteq> Idle \<Longrightarrow> mb' = ?m2"
    using s st by (simp add: schedule_cases del: schedule.simps)
  from schedule_trace [OF s] st r
  show "\<exists>es. trace mb' = trace mb @ [MessagePosted m, PushSystem m] @ es
          \<and> list_all drain_event es
          \<and> (status mb = Idle \<longrightarrow> (\<exists>es'. es = DispatcherSchedule # es'))
          \<and> (status mb \<noteq> Idle \<longrightarrow> es = [] \<and> system_messages mb' = system_messages mb @ [m])"
    by auto
next
  let ?m2 = "emit (PushUser m)
      ((emit (MessagePosted m) mb)\<lparr>user_mailbox := user_mailbox mb @ [m]\<rparr>)"
  assume "post_user_message fuel recv m mb = Some (mb', x)"
  then have s: "schedule fuel recv ?m2 = Some (mb', x)"
    by (simp add: post_user_message_def Let_def emit_def del: schedule.simps)
  have st: "status ?m2 = status mb" "trace ?m2 = trace mb @ [MessagePosted m, PushUser m]"
      "user_mailbox ?m2 = user_mailbox mb @ [m]"
    by (simp_all add: emit_def)
  have r: "status mb \<noteq> Idle \<Longrightarrow> mb' = ?m2"
    using s st by (simp add: schedule_cases del: schedule.simps)
  from schedule_trace [OF s] st r
  show "\<exists>es. trace mb' = trace mb @ [MessagePosted m, PushUser m] @ es
          \<and> list_all drain_event es
          \<and> (status mb = Idle \<longrightarrow> (\<exists>es'. es = DispatcherSchedule # es'))
          \<and> (status mb \<noteq> Idle \<longrightarrow> es = [] \<and> user_mailbox mb' = user_mailbox mb @ [m])"
    by auto
qed

theorem post_notifies_then_pushes_then_schedules_witness:
  "(\<exists>mb' x es'. post_system_message 1 recv_count new_StopMessage (bound_mailbox 300) = Some (mb', x)
      \<and> status (bound_mailbox 300) = Idle
      \<and> trace mb' = trace (bound_mailbox 300)
          @ [MessagePosted new_StopMessage, PushSystem new_StopMessage] @ DispatcherSchedule # es')
 \<and> (\<exists>mb' x es'. post_user_message 1 recv_count (new_Hello ''ProtoActor'') (bound_mailbox 300)
        = Some (mb', x)
      \<and> status (bound_mailbox 300) = Idle
      \<and> trace mb' = trace (bound_mailbox 300)
          @ [MessagePosted (new_Hello ''ProtoActor''), PushUser (new_Hello ''ProtoActor'')]
          @ DispatcherSchedule # es')"
proof -
  have st: "status (bound_mailbox 300) = Idle"
    by (simp add: eval_rules)
  have "post_system_message 1 recv_count new_StopMessage (bound_mailbox 300) \<noteq> None"
    by (simp add: eval_rules)
  then obtain mb1 x1 where
    h1: "post_system_message 1 recv_count new_StopMessage (bound_mailbox 300) = Some (mb1, x1)"
    by auto
  have "post_user_message 1 recv_count (new_Hello ''ProtoActor'') (bound_mailbox 300) \<noteq> None"
    by (simp add: eval_rules)
  then obtain mb2 x2 where
    h2: "post_user_message 1 recv_count (new_Hello ''ProtoActor'') (bound_mailbox 300)
      = Some (mb2, x2)"
    by auto
  from post_notifies_then_pushes_then_schedules
    [of 1 recv_count new_StopMessage "bound_mailbox 300" mb1 x1] h1 st
  have a: "\<exists>es'. trace mb1 = trace (bound_mailbox 300)
          @ [MessagePosted new_StopMessage, PushSystem new_StopMessage] @ DispatcherSchedule # es'"
    by auto
  from post_notifies_then_pushes_then_schedules
    [of 1 recv_count "new_Hello ''ProtoActor''" "bound_mailbox 300" mb2 x2] h2 st
  have b: "\<exists>es'. trace mb2 = trace (bound_mailbox 300)
          @ [MessagePosted (new_Hello ''ProtoActor''), PushUser (new_Hello ''ProtoActor'')]
          @ DispatcherSchedule # es'"
    by auto
  show ?thesis
    using a b h1 h2 st by blast
qed

theorem post_pushes_before_notifying_counterexample:
  "trace_of (post_system_message 1 recv_count new_StopMessage (bound_mailbox 300))
     = [HandlersRegistered, MessagePosted new_StopMessage, PushSystem new_StopMessage,
        DispatcherSchedule, PopSystem (Some new_StopMessage), InvokeSystem new_StopMessage,
        MessageReceived new_StopMessage, PopSystem None, PopUser None, MailboxEmpty]
   \<and> \<not> occurs_before (PushSystem new_StopMessage) (MessagePosted new_StopMessage)
        (trace_of (post_system_message 1 recv_count new_StopMessage (bound_mailbox 300)))"
proof -
  have t: "trace_of (post_system_message 1 recv_count new_StopMessage (bound_mailbox 300))
     = [HandlersRegistered, MessagePosted new_StopMessage, PushSystem new_StopMessage,
        DispatcherSchedule, PopSystem (Some new_StopMessage), InvokeSystem new_StopMessage,
        MessageReceived new_StopMessage, PopSystem None, PopUser None, MailboxEmpty]"
    by (simp add: eval_rules)
  show ?thesis
    unfolding t by simp
qed



text \<open>
  C9 (as amended). For every message object built with \<open>do_not_delete = true\<close>,
  \<open>Message::Deleter\<close> never runs the destructor: the object is still live, and the same,
  after any number of send cycles of any pointers, each of which ends with the last owning
  smart pointer destroyed. The two static sentinels, which \<open>StartedMessage::instance()\<close> and
  \<open>StopMessage::instance()\<close> hand out, are built with the flag set and so survive.
  (\<open>SuspendMailboxMessage\<close> and \<open>ResumeMailboxMessage\<close> are not among them.)
\<close>

theorem static_sentinel_survives:
  "(h a = Some m \<and> do_not_delete m \<longrightarrow> send_cycles ps h a = Some m)
 \<and> fst (StartedMessage_instance h) = Some started_instance
 \<and> send_cycles ps (snd (StartedMessage_instance h)) started_instance = Some new_StartedMessage
 \<and> do_not_delete new_StartedMessage
 \<and> fst (StopMessage_instance h) = Some stop_instance
 \<and> send_cycles ps (snd (StopMessage_instance h)) stop_instance = Some new_StopMessage
 \<and> do_not_delete new_StopMessage"
proof (intro conjI impI)
  show "send_cycles ps h a = Some m" if "h a = Some m \<and> do_not_delete m"
    using that by (simp add: send_cycles_keeps_static)
  show "fst (StartedMessage_instance h) = Some started_instance"
    by (simp add: StartedMessage_instance_def)
  show d1: "do_not_delete new_StartedMessage"
    by (simp add: new_StartedMessage_def)
  show "send_cycles ps (snd (StartedMessage_instance h)) started_instance
      = Some new_StartedMessage"
    using d1 by (simp add: StartedMessage_instance_def send_cycles_keeps_static)
  show "fst (StopMessage_instance h) = Some stop_instance"
    by (simp add: StopMessage_instance_def)
  show d2: "do_not_delete new_StopMessage"
    by (simp add: new_StopMessage_def)
  show "send_cycles ps (snd (StopMessage_instance h)) stop_instance = Some new_StopMessage"
    using d2 by (simp add: StopMessage_instance_def send_cycles_keeps_static)
qed

theorem static_sentinel_survives_witness:
  "snd (StopMessage_instance control_store) stop_instance = Some new_StopMessage
 \<and> do_not_delete new_StopMessage
 \<and> send_cycles [Some stop_instance, Some 2, None, Some stop_instance, Some 3]
       (snd (StopMessage_instance control_store)) stop_instance = Some new_StopMessage"
proof -
  have a: "snd (StopMessage_instance control_store) stop_instance = Some new_StopMessage"
    by (simp add: StopMessage_instance_def)
  have b: "do_not_delete new_StopMessage"
    by (simp add: new_StopMessage_def)
  from static_sentinel_survives [of "snd (StopMessage_instance control_store)" stop_instance
      new_StopMessage "[Some stop_instance, Some 2, None, Some stop_instance, Some 3]"] a b
  show ?thesis by blast
qed

theorem suspend_resume_sentinel_counterexample:
  "\<not> do_not_delete new_SuspendMailboxMessage
 \<and> \<not> do_not_delete new_ResumeMailboxMessage
 \<and> control_store 2 = Some new_SuspendMailboxMessage
 \<and> control_store 3 = Some new_ResumeMailboxMessage
 \<and> send_cycle (Some 2) control_store 2 = None
 \<and> send_cycle (Some 3) control_store 3 = None"
  by (simp add: control_store_def new_message_def send_cycle_def Deleter_def
      new_SuspendMailboxMessage_def new_ResumeMailboxMessage_def)

text \<open>
  C10. For a system message that is not a \<open>StartedMessage\<close> (\<open>Stop\<close>, \<open>SuspendMailbox\<close> and
  \<open>ResumeMailbox\<close> among them), \<open>LocalContext::invoke_system_message\<close> does nothing: it
  returns normally with the context as it was, whatever the actor's \<open>receive\<close> is, so no
  \<open>receive\<close> ran. The lifecycle state is \<open>Alive\<close> once the constructor has incarnated the
  actor, and nothing changes it afterwards: not an invocation of a system or user message
  of any class, not \<open>escalate_failure\<close>, and no drain or post of the mailbox the context is
  bound to.
\<close>

theorem non_started_system_message_is_noop:
  "(cls m \<noteq> StartedMessage \<longrightarrow> invoke_system_message recv m c = (c, None))
 \<and> state (new_LocalContext p par) = Alive
 \<and> state (fst (invoke_system_message recv m c)) = state c
 \<and> state (fst (invoke_user_message recv m c)) = state c
 \<and> state (escalate_failure e mo c) = state c
 \<and> (schedule fuel recv mb = Some (mb', x) \<longrightarrow>
       map_option state (invoker mb') = map_option state (invoker mb))
 \<and> (post_system_message fuel recv m mb = Some (mb', x) \<longrightarrow>
       map_option state (invoker mb') = map_option state (invoker mb))
 \<and> (post_user_message fuel recv m mb = Some (mb', x) \<longrightarrow>
       map_option state (invoker mb') = map_option state (invoker mb))"
proof (intro conjI impI)
  show "invoke_system_message recv m c = (c, None)" if "cls m \<noteq> StartedMessage"
    using that by (simp add: invoke_system_message_def)
  show "state (new_LocalContext p par) = Alive"
    by (simp add: new_LocalContext_def incarnate_actor_def)
  show "state (fst (invoke_system_message recv m c)) = state c"
    by (rule invoke_system_message_state)
  show "state (fst (invoke_user_message recv m c)) = state c"
    by (rule invoke_user_message_state)
  show "state (escalate_failure e mo c) = state c"
    by (simp add: escalate_failure_def)
  show "map_option state (invoker mb') = map_option state (invoker mb)"
    if "schedule fuel recv mb = Some (mb', x)"
    using same_lifecycle_schedule [OF that] by (simp add: same_lifecycle_def)
  show "map_option state (invoker mb') = map_option state (invoker mb)"
    if "post_system_message fuel recv m mb = Some (mb', x)"
  proof -
    have "schedule fuel recv (emit (PushSystem m)
        ((emit (MessagePosted m) mb)\<lparr>system_messages := system_messages mb @ [m]\<rparr>))
      = Some (mb', x)"
      using that by (simp add: post_system_message_def Let_def emit_def del: schedule.simps)
    from same_lifecycle_schedule [OF this] show ?thesis
      by (simp add: same_lifecycle_def emit_def)
  qed
  show "map_option state (invoker mb') = map_option state (invoker mb)"
    if "post_user_message fuel recv m mb = Some (mb', x)"
  proof -
    have "schedule fuel recv (emit (PushUser m)
        ((emit (MessagePosted m) mb)\<lparr>user_mailbox := user_mailbox mb @ [m]\<rparr>))
      = Some (mb', x)"
      using that by (simp add: post_user_message_def Let_def emit_def del: schedule.simps)
    from same_lifecycle_schedule [OF this] show ?thesis
      by (simp add: same_lifecycle_def emit_def)
  qed
qed

theorem non_started_system_message_is_noop_witness:
  "cls new_StopMessage \<noteq> StartedMessage
 \<and> invoke_system_message recv_count new_StopMessage (new_LocalContext 0 None)
     = (new_LocalContext 0 None, None)
 \<and> actor (fst (invoke_system_message recv_count new_StartedMessage (new_LocalContext 0 None)))
     = Some 1
 \<and> (\<exists>mb' x. schedule 1 recv_count (bound_mailbox 300) = Some (mb', x)
       \<and> map_option state (invoker mb') = Some Alive)
 \<and> (\<exists>mb' x. post_system_message 1 recv_count new_StopMessage (bound_mailbox 300) = Some (mb', x)
       \<and> map_option state (invoker mb') = Some Alive)
 \<and> (\<exists>mb' x. post_user_message 1 recv_count new_StopMessage (bound_mailbox 300) = Some (mb', x)
       \<and> map_option state (invoker mb') = Some Alive)"
proof -
  have c: "cls new_StopMessage \<noteq> StartedMessage"
    by (simp add: new_StopMessage_def)
  have a: "actor (fst (invoke_system_message recv_count new_StartedMessage
      (new_LocalContext 0 None))) = Some 1"
    by (simp add: eval_rules)
  have s0: "map_option state (invoker (bound_mailbox 300)) = Some Alive"
    by (simp add: eval_rules)
  have "schedule 1 recv_count (bound_mailbox 300) \<noteq> None"
    by (simp add: eval_rules)
  then obtain mb1 x1 where h1: "schedule 1 recv_count (bound_mailbox 300) = Some (mb1, x1)"
    by auto
  have "post_system_message 1 recv_count new_StopMessage (bound_mailbox 300) \<noteq> None"
    by (simp add: eval_rules)
  then obtain mb2 x2 where
    h2: "post_system_message 1 recv_count new_StopMessage (bound_mailbox 300) = Some (mb2, x2)"
    by auto
  have "post_user_message 1 recv_count new_StopMessage (bound_mailbox 300) \<noteq> None"
    by (simp add: eval_rules)
  then obtain mb3 x3 where
    h3: "post_user_message 1 recv_count new_StopMessage (bound_mailbox 300) = Some (mb3, x3)"
    by auto
  note t = non_started_system_message_is_noop
  have n: "invoke_system_message recv_count new_StopMessage (new_LocalContext 0 None)
      = (new_LocalContext 0 None, None)"
    using t [where m = new_StopMessage and recv = recv_count and c = "new_LocalContext 0 None"
      and mb = "bound_mailbox 300" and mb' = mb1 and x = x1 and fuel = 1 and p = 0
      and par = None and e = non_std_exception and mo = None] c
    by blast
  have r1: "map_option state (invoker mb1) = Some Alive"
    using t [where m = new_StopMessage and recv = recv_count and c = "new_LocalContext 0 None"
      and mb = "bound_mailbox 300" and mb' = mb1 and x = x1 and fuel = 1 and p = 0
      and par = None and e = non_std_exception and mo = None] h1 s0
    by (metis (no_types))
  have r2: "map_option state (invoker mb2) = Some Alive"
    using t [where m = new_StopMessage and recv = recv_count and c = "new_LocalContext 0 None"
      and mb = "bound_mailbox 300" and mb' = mb2 and x = x2 and fuel = 1 and p = 0
      and par = None and e = non_std_exception and mo = None] h2 s0
    by (metis (no_types))
  have r3: "map_option state (invoker mb3) = Some Alive"
    using t [where m = new_StopMessage and recv = recv_count and c = "new_LocalContext 0 None"
      and mb = "bound_mailbox 300" and mb' = mb3 and x = x3 and fuel = 1 and p = 0
      and par = None and e = non_std_exception and mo = None] h3 s0
    by (metis (no_types))
  show ?thesis
    using c a n h1 h2 h3 r1 r2 r3 by blast
qed

end
